theory Spec2Isabelle
  imports Main "HOL-Library.Sublist"
begin

section \<open>Text: characters and the string operations the analysis uses\<close>

text \<open>
  A Python \<open>str\<close> is modelled as a \<open>string\<close>; a \<open>char\<close> stands for the code
  point of the same number, so the model covers text over the first 256 code points
  (ASCII and Latin-1). The three character tables below are those of CPython for that
  range: \<open>str.isspace\<close> (which \<open>str.strip\<close>, \<open>str.split\<close> and the pattern
  \<open>\s\<close> share), the word characters of \<open>\w\<close> and \<open>\b\<close>, and \<open>str.lower\<close>.
\<close>

definition is_space :: "char \<Rightarrow> bool" where
  "is_space c = (let n = (of_char c :: nat) in
     (9 \<le> n \<and> n \<le> 13) \<or> (28 \<le> n \<and> n \<le> 32) \<or> n = 133 \<or> n = 160)"

definition is_word :: "char \<Rightarrow> bool" where
  "is_word c = (let n = (of_char c :: nat) in
     (48 \<le> n \<and> n \<le> 57) \<or> (65 \<le> n \<and> n \<le> 90) \<or> n = 95 \<or> (97 \<le> n \<and> n \<le> 122) \<or>
     n = 170 \<or> n = 178 \<or> n = 179 \<or> n = 181 \<or> n = 185 \<or> n = 186 \<or>
     (188 \<le> n \<and> n \<le> 190) \<or> (192 \<le> n \<and> n \<le> 214) \<or> (216 \<le> n \<and> n \<le> 246) \<or>
     (248 \<le> n \<and> n \<le> 255))"

definition lower_char :: "char \<Rightarrow> char" where
  "lower_char c = (let n = (of_char c :: nat) in
     if (65 \<le> n \<and> n \<le> 90) \<or> (192 \<le> n \<and> n \<le> 214) \<or> (216 \<le> n \<and> n \<le> 222)
     then char_of (n + 32) else c)"

text \<open>\<open>s.lower()\<close>\<close>

definition lower :: "string \<Rightarrow> string" where
  "lower s = map lower_char s"

text \<open>\<open>sub in s\<close>\<close>

fun contains :: "string \<Rightarrow> string \<Rightarrow> bool" where
  "contains sub [] = (sub = [])"
| "contains sub (c # cs) = (prefix sub (c # cs) \<or> contains sub cs)"

text \<open>\<open>s.strip()\<close>\<close>

definition strip :: "string \<Rightarrow> string" where
  "strip s = rev (dropWhile is_space (rev (dropWhile is_space s)))"

text \<open>
  \<open>s.split()\<close>: the maximal runs of non-whitespace characters, in order.
\<close>

function split_ws :: "string \<Rightarrow> string list" where
  "split_ws s =
     (let t = dropWhile is_space s in
      if t = [] then []
      else takeWhile (\<lambda>c. \<not> is_space c) t # split_ws (dropWhile (\<lambda>c. \<not> is_space c) t))"
  by pat_completeness auto
termination
proof (relation "measure length")
  show "wf (measure length)" by simp
next
  fix s t :: string
  assume t: "t = dropWhile is_space s" and ne: "t \<noteq> []"
  from ne obtain x xs where tx: "t = x # xs" by (cases t) auto
  with t have "\<not> is_space x" by (metis hd_dropWhile list.sel(1) ne)
  with tx have "length (dropWhile (\<lambda>c. \<not> is_space c) t) \<le> length xs"
    by (simp add: length_dropWhile_le)
  moreover have "length t \<le> length s" using t by (simp add: length_dropWhile_le)
  ultimately show "(dropWhile (\<lambda>c. \<not> is_space c) t, s) \<in> measure length"
    using tx by simp
qed

declare split_ws.simps [simp del]

text \<open>
  \<open>s.split(sep)\<close> for a non-empty separator: the pieces between the occurrences of
  \<open>sep\<close>, found from left to right without overlap. \<open>acc\<close> holds the current piece,
  reversed. (After a separator at the head of \<open>c # cs\<close> the scan resumes
  \<open>length sep\<close> characters on, which is \<open>drop (length sep - 1) cs\<close>.)
\<close>

fun split_acc :: "string \<Rightarrow> string \<Rightarrow> string \<Rightarrow> string list" where
  "split_acc sep acc [] = [rev acc]"
| "split_acc sep acc (c # cs) =
     (if prefix sep (c # cs) then rev acc # split_acc sep [] (drop (length sep - 1) cs)
      else split_acc sep (c # acc) cs)"

definition split :: "string \<Rightarrow> string \<Rightarrow> string list" where
  "split sep s = split_acc sep [] s"

text \<open>\<open>os.path.basename(p)\<close> (POSIX): the text after the last slash.\<close>

definition basename :: "string \<Rightarrow> string" where
  "basename p = rev (takeWhile (\<lambda>c. c \<noteq> CHR ''/'') (rev p))"


section \<open>Regular expressions\<close>

text \<open>
  The patterns of the source use literals, the classes \<open>\s\<close>, \<open>\S\<close>, \<open>.\<close> and
  \<open>[^/]\<close> under \<open>+\<close> or \<open>*\<close>, sequence, alternation, \<open>?\<close>, and the assertions
  \<open>\b\<close>, \<open>^\<close> and \<open>$\<close>. No pattern is compiled with a flag, so \<open>.\<close> excludes the
  newline, \<open>^\<close> holds at the start of the text only, and \<open>$\<close> holds at the end of
  the text or before a newline that ends it.
\<close>

datatype cclass = Space | NonSpace | Dot | NotSlash

fun cmatch :: "cclass \<Rightarrow> char \<Rightarrow> bool" where
  "cmatch Space c = is_space c"
| "cmatch NonSpace c = (\<not> is_space c)"
| "cmatch Dot c = (c \<noteq> CHR 0x0A)"
| "cmatch NotSlash c = (c \<noteq> CHR ''/'')"

datatype regex =
    Lit string
  | Plus cclass
  | Star cclass
  | Seq regex regex
  | Alt regex regex
  | Opt regex
  | WordB
  | Bol
  | Eol

text \<open>
  A position in the text is the character before it (\<open>None\<close> at the start) and the text
  after it.
\<close>

type_synonym pos = "char option \<times> string"

text \<open>
  The positions after zero or more characters of a class, the longest run first (the
  quantifiers are greedy).
\<close>

fun runs :: "cclass \<Rightarrow> char option \<Rightarrow> string \<Rightarrow> pos list" where
  "runs k p [] = [(p, [])]"
| "runs k p (c # cs) = (if cmatch k c then runs k (Some c) cs @ [(p, c # cs)] else [(p, c # cs)])"

definition word_before :: "char option \<Rightarrow> bool" where
  "word_before p = (case p of None \<Rightarrow> False | Some c \<Rightarrow> is_word c)"

definition word_after :: "string \<Rightarrow> bool" where
  "word_after s = (case s of [] \<Rightarrow> False | c # _ \<Rightarrow> is_word c)"

text \<open>
  The positions at which a match of the pattern starting at the given position can end,
  in the order in which the backtracking matcher finds them.
\<close>

fun rmatch :: "regex \<Rightarrow> pos \<Rightarrow> pos list" where
  "rmatch (Lit l) (p, s) =
     (if prefix l s then [(if l = [] then p else Some (last l), drop (length l) s)] else [])"
| "rmatch (Plus k) (p, s) = butlast (runs k p s)"
| "rmatch (Star k) (p, s) = runs k p s"
| "rmatch (Seq r1 r2) st = concat (map (rmatch r2) (rmatch r1 st))"
| "rmatch (Alt r1 r2) st = rmatch r1 st @ rmatch r2 st"
| "rmatch (Opt r) st = rmatch r st @ [st]"
| "rmatch WordB (p, s) = (if word_before p \<noteq> word_after s then [(p, s)] else [])"
| "rmatch Bol (p, s) = (if p = None then [(p, s)] else [])"
| "rmatch Eol (p, s) = (if s = [] \<or> s = [CHR 0x0A] then [(p, s)] else [])"

text \<open>\<open>re.search(r, s)\<close> as a truth value: a match starting at some position of \<open>s\<close>.\<close>

fun search_from :: "regex \<Rightarrow> char option \<Rightarrow> string \<Rightarrow> bool" where
  "search_from r p [] = (rmatch r (p, []) \<noteq> [])"
| "search_from r p (c # cs) = (rmatch r (p, c # cs) \<noteq> [] \<or> search_from r (Some c) cs)"

definition re_search :: "regex \<Rightarrow> string \<Rightarrow> bool" where
  "re_search r s = search_from r None s"

text \<open>Sequences and alternations of several patterns.\<close>

fun seqs :: "regex list \<Rightarrow> regex" where
  "seqs [] = Lit []"
| "seqs [r] = r"
| "seqs (r # rs) = Seq r (seqs rs)"

fun alts :: "regex list \<Rightarrow> regex" where
  "alts [] = Lit []"
| "alts [r] = r"
| "alts (r # rs) = Alt r (alts rs)"

section \<open>Trajectories\<close>

text \<open>
  A step is a JSON object, read here as a dictionary from keys to values; the analysis
  reads its keys \<open>action\<close> and \<open>thought\<close>, whose values are JSON strings or
  \<open>null\<close> (Python's \<open>None\<close>). \<open>step.get(key, '')\<close> is \<open>get_field\<close>;
  \<open>x or ''\<close> is \<open>or_empty\<close>.
\<close>

datatype jval = JNull | JStr string

type_synonym step = "string \<rightharpoonup> jval"

datatype error = TypeError

definition get_field :: "step \<Rightarrow> string \<Rightarrow> jval" where
  "get_field step key = (case step key of None \<Rightarrow> JStr [] | Some v \<Rightarrow> v)"

fun or_empty :: "jval \<Rightarrow> string" where
  "or_empty JNull = []"
| "or_empty (JStr s) = s"

section \<open>\<open>locate_reproduction_code\<close>\<close>

definition filename_keywords :: "string list" where
  "filename_keywords =
     [''reproduce'', ''debug'', ''test_'', ''_test'', ''verify'', ''check'', ''demo'',
      ''example'', ''issue'', ''bug'', ''minimal'', ''poc'', ''script'', ''run_'', ''try_'']"

definition thought_patterns :: "regex list" where
  "thought_patterns =
     [Lit ''reproduce the issue'',
      Lit ''reproduce the bug'',
      Lit ''reproduce the problem'',
      Lit ''reproduce the error'',
      seqs [Lit ''test'', Star Dot, Lit ''to reproduce''],
      Lit ''script to reproduce'',
      Seq (Lit ''verify the '') (alts [Lit ''bug'', Lit ''issue'', Lit ''problem'', Lit ''fix'']),
      Seq (Lit ''test the '') (alts [Lit ''bug'', Lit ''issue'', Lit ''problem'', Lit ''fix'']),
      Seq (Lit ''confirm the '') (alts [Lit ''bug'', Lit ''issue'', Lit ''problem'', Lit ''fix'']),
      seqs [Lit ''create a '', alts [Lit ''test '', Lit ''reproduction '', Lit []], Lit ''script''],
      seqs [Lit ''let'', Opt (Lit [CHR 0x27]), Lit ''s create a script''],
      seqs [Lit ''create'', Star Dot, Lit ''to test''],
      seqs [Lit ''create'', Star Dot, Lit ''to verify''],
      Lit ''demonstrate the issue'',
      seqs [Lit ''minimal'', Star Dot, Lit ''example''],
      Lit ''test case'']"

text \<open>
  \<open>re.match(r'str_replace_editor create\s+(\S+)', action)\<close>: the match is tried at
  the start of the action only, and the result is group 1 of the first match the
  backtracking finds.
\<close>

definition create_prefix :: regex where
  "create_prefix = Seq (Lit ''str_replace_editor create'') (Plus Space)"

definition match_create :: "string \<Rightarrow> string option" where
  "match_create action =
     (case concat (map (\<lambda>(p1, s1). map (\<lambda>(p2, s2). take (length s1 - length s2) s1)
                                        (rmatch (Plus NonSpace) (p1, s1)))
                       (rmatch create_prefix (None, action))) of
        [] \<Rightarrow> None
      | filepath # _ \<Rightarrow> Some filepath)"

text \<open>\<open>re.match(r'^/testbed/[^/]+\.py$', filepath)\<close> as a truth value.\<close>

definition testbed_root_pattern :: regex where
  "testbed_root_pattern = seqs [Bol, Lit ''/testbed/'', Plus NotSlash, Lit ''.py'', Eol]"

definition excluded_names :: "string list" where
  "excluded_names = [''__init__.py'', ''setup.py'', ''conftest.py'']"

text \<open>
  The body of the loop for one step: \<open>Inr True\<close> when the step index is appended,
  \<open>Inr False\<close> when it is not, and \<open>Inl TypeError\<close> when the action is \<open>None\<close>
  (the test \<open>'str_replace_editor create' not in action\<close> raises then).
\<close>

definition is_reproduction :: "step \<Rightarrow> error + bool" where
  "is_reproduction step =
     (let action = get_field step ''action'';
          thought = or_empty (get_field step ''thought'');
          thought_lower = lower thought
      in case action of
           JNull \<Rightarrow> Inl TypeError
         | JStr action \<Rightarrow>
             (if \<not> contains ''str_replace_editor create'' action then Inr False
              else (case match_create action of
                      None \<Rightarrow> Inr False
                    | Some filepath \<Rightarrow>
                       (let filename = basename filepath;
                            filename_lower = lower filename
                        in if \<not> suffix ''.py'' filename_lower then Inr False
                           else if list_ex (\<lambda>keyword. contains keyword filename_lower) filename_keywords
                             then Inr True
                           else if list_ex (\<lambda>pattern. re_search pattern thought_lower) thought_patterns
                             then Inr True
                           else if rmatch testbed_root_pattern (None, filepath) \<noteq> []
                                    \<and> filename_lower \<notin> set excluded_names
                             then Inr True
                           else Inr False))))"

text \<open>
  The loop \<open>for step_idx, step in enumerate(trajectory)\<close>, from index \<open>idx\<close> on, with
  the list \<open>reproduction_steps\<close> built so far.
\<close>

fun reproduction_loop :: "nat \<Rightarrow> step list \<Rightarrow> nat list \<Rightarrow> error + nat list" where
  "reproduction_loop idx [] reproduction_steps = Inr reproduction_steps"
| "reproduction_loop idx (step # rest) reproduction_steps =
     (case is_reproduction step of
        Inl e \<Rightarrow> Inl e
      | Inr True \<Rightarrow> reproduction_loop (Suc idx) rest (reproduction_steps @ [idx])
      | Inr False \<Rightarrow> reproduction_loop (Suc idx) rest reproduction_steps)"

text \<open>
  \<open>locate_reproduction_code\<close> on the loaded trajectory (finding and reading the file is
  left out).
\<close>

definition locate_reproduction_code :: "step list \<Rightarrow> error + nat list" where
  "locate_reproduction_code trajectory = reproduction_loop 0 trajectory []"

section \<open>\<open>locate_search\<close>\<close>

definition swe_agent_search_commands :: "string list" where
  "swe_agent_search_commands = [''find_file'', ''search_file'', ''search_dir'']"

definition bash_search_patterns :: "regex list" where
  "bash_search_patterns =
     [seqs [WordB, Lit ''find'', Plus Space],
      seqs [WordB, Lit ''grep'', Plus Space],
      seqs [WordB, Lit ''cat'', Plus Space],
      seqs [WordB, Lit ''ls'', Plus Space],
      seqs [WordB, Lit ''ls'', Eol],
      seqs [WordB, Lit ''head'', Plus Space],
      seqs [WordB, Lit ''tail'', Plus Space],
      seqs [WordB, Lit ''less'', Plus Space],
      seqs [WordB, Lit ''more'', Plus Space],
      seqs [WordB, Lit ''wc'', Plus Space],
      seqs [WordB, Lit ''awk'', Plus Space],
      seqs [WordB, Lit ''sed'', Plus Space],
      seqs [WordB, Lit ''rg'', Plus Space],
      seqs [WordB, Lit ''ag'', Plus Space],
      seqs [WordB, Lit ''git'', Plus Space, Lit ''show'', Plus Space],
      seqs [WordB, Lit ''git'', Plus Space, Lit ''log'', Plus Space],
      seqs [WordB, Lit ''git'', Plus Space, Lit ''diff'', Plus Space]]"

definition editor_view_pattern :: regex where
  "editor_view_pattern = seqs [Lit ''str_replace_editor'', Plus Space, Lit ''view'', Plus Space]"

definition code_modification_patterns :: "regex list" where
  "code_modification_patterns =
     [seqs [Lit ''str_replace_editor'', Plus Space, Lit ''str_replace'', Plus Space],
      seqs [Lit ''str_replace_editor'', Plus Space, Lit ''create'', Plus Space],
      seqs [Lit ''str_replace_editor'', Plus Space, Lit ''insert'', Plus Space],
      seqs [Lit ''str_replace_editor'', Plus Space, Lit ''undo_edit'', Plus Space]]"

text \<open>The first loop of the body: some modification pattern is found in the action.\<close>

definition is_modification :: "string \<Rightarrow> bool" where
  "is_modification action = list_ex (\<lambda>pattern. re_search pattern action) code_modification_patterns"

text \<open>The three tests that set \<open>is_search_step\<close>, each tried only if none before it held.\<close>

definition swe_agent_search :: "string \<Rightarrow> bool" where
  "swe_agent_search action =
     list_ex (\<lambda>cmd. prefix cmd action \<or> contains ('' '' @ cmd) action) swe_agent_search_commands"

definition bash_search :: "string \<Rightarrow> bool" where
  "bash_search action = list_ex (\<lambda>pattern. re_search pattern action) bash_search_patterns"

definition is_search_step :: "string \<Rightarrow> bool" where
  "is_search_step action =
     (if swe_agent_search action then True
      else if re_search editor_view_pattern action then True
      else bash_search action)"

fun search_loop :: "nat \<Rightarrow> step list \<Rightarrow> nat list \<Rightarrow> nat list" where
  "search_loop idx [] search_steps = search_steps"
| "search_loop idx (step # rest) search_steps =
     (let action = or_empty (get_field step ''action'');
          thought = or_empty (get_field step ''thought'')
      in if is_modification action then search_loop (Suc idx) rest search_steps
         else if is_search_step action then search_loop (Suc idx) rest (search_steps @ [idx])
         else search_loop (Suc idx) rest search_steps)"

text \<open>\<open>locate_search\<close> on the loaded trajectory.\<close>

definition locate_search :: "step list \<Rightarrow> nat list" where
  "locate_search trajectory = search_loop 0 trajectory []"

section \<open>\<open>locate_tool_use\<close>\<close>

text \<open>
  \<open>tool_counts\<close> is a Python dictionary, which keeps its keys in the order of their
  first insertion: an association list with one entry for each key.
  \<open>tool_counts.get(k, 0)\<close> is \<open>count_of\<close>, and
  \<open>tool_counts[k] = tool_counts.get(k, 0) + 1\<close> is \<open>bump\<close>.
\<close>

type_synonym counts = "(string \<times> nat) list"

definition count_of :: "counts \<Rightarrow> string \<Rightarrow> nat" where
  "count_of tool_counts k = (case map_of tool_counts k of None \<Rightarrow> 0 | Some n \<Rightarrow> n)"

fun assign :: "counts \<Rightarrow> string \<Rightarrow> nat \<Rightarrow> counts" where
  "assign [] k v = [(k, v)]"
| "assign ((k', v') # rest) k v = (if k' = k then (k, v) # rest else (k', v') # assign rest k v)"

definition bump :: "counts \<Rightarrow> string \<Rightarrow> counts" where
  "bump tool_counts k = assign tool_counts k (count_of tool_counts k + 1)"

definition editor_commands :: "string list" where
  "editor_commands = [''view'', ''create'', ''str_replace'', ''insert'', ''undo_edit'']"

definition shell_commands :: "string list" where
  "shell_commands =
     [''python'', ''python3'', ''pip'', ''pip3'',
      ''cd'', ''ls'', ''cat'', ''head'', ''tail'', ''less'', ''more'',
      ''grep'', ''find'', ''sed'', ''awk'', ''wc'',
      ''echo'', ''touch'', ''mkdir'', ''rm'', ''mv'', ''cp'',
      ''git'', ''pytest'', ''tox'', ''make'',
      ''bash'', ''sh'', ''source'', ''export'']"

text \<open>\<open>rf'str_replace_editor\s+{cmd}\b'\<close>\<close>

definition editor_pattern :: "string \<Rightarrow> regex" where
  "editor_pattern cmd = seqs [Lit ''str_replace_editor'', Plus Space, Lit cmd, WordB]"

text \<open>\<open>rf'^{shell_cmd}\b|^\/{shell_cmd}\b'\<close>\<close>

definition shell_pattern :: "string \<Rightarrow> regex" where
  "shell_pattern shell_cmd =
     Alt (seqs [Bol, Lit shell_cmd, WordB]) (seqs [Bol, Lit (''/'' @ shell_cmd), WordB])"

text \<open>
  The editor branch: the first command of \<open>editor_commands\<close> whose pattern is found in
  the action is counted, and the loop stops there.
\<close>

definition count_editor :: "counts \<Rightarrow> string \<Rightarrow> counts" where
  "count_editor tool_counts action =
     (case find (\<lambda>cmd. re_search (editor_pattern cmd) action) editor_commands of
        Some cmd \<Rightarrow> bump tool_counts (''str_replace_editor_'' @ cmd)
      | None \<Rightarrow> tool_counts)"

text \<open>
  The resolution of one command text, which the source writes out twice (for each part
  of an \<open>&&\<close> chain, and for a single or piped command): the first command of
  \<open>shell_commands\<close> whose pattern is found is counted; if there is none and the text is
  not empty, its first word is counted under its base name, unless it starts with a dash.
  \<open>first_word\<close> is \<open>part.split()[0] if part.split() else ''\<close>.
\<close>

definition first_word :: "string \<Rightarrow> string" where
  "first_word part = (case split_ws part of [] \<Rightarrow> [] | w # _ \<Rightarrow> w)"

definition count_command :: "counts \<Rightarrow> string \<Rightarrow> counts" where
  "count_command tool_counts part =
     (case find (\<lambda>shell_cmd. re_search (shell_pattern shell_cmd) part) shell_commands of
        Some shell_cmd \<Rightarrow> bump tool_counts shell_cmd
      | None \<Rightarrow>
          if part \<noteq> [] then
            (if first_word part \<noteq> [] \<and> \<not> prefix ''-'' (first_word part)
             then bump tool_counts (basename (first_word part))
             else tool_counts)
          else tool_counts)"

text \<open>The loop over the parts of an \<open>&&\<close> chain.\<close>

fun count_parts :: "counts \<Rightarrow> string list \<Rightarrow> counts" where
  "count_parts tool_counts [] = tool_counts"
| "count_parts tool_counts (part # parts) = count_parts (count_command tool_counts (strip part)) parts"

text \<open>The body of the main loop for one action.\<close>

definition count_action :: "counts \<Rightarrow> string \<Rightarrow> counts" where
  "count_action tool_counts action =
     (if action = [] then tool_counts
      else if prefix ''str_replace_editor'' action then count_editor tool_counts action
      else
        let action_stripped = strip action
        in if contains '' && '' action_stripped
           then count_parts tool_counts (split '' && '' action_stripped)
           else
             let action_stripped =
                   (if contains '' | '' action_stripped
                    then strip (hd (split '' | '' action_stripped))
                    else action_stripped)
             in count_command tool_counts action_stripped)"

fun tool_loop :: "counts \<Rightarrow> step list \<Rightarrow> counts" where
  "tool_loop tool_counts [] = tool_counts"
| "tool_loop tool_counts (step # rest) =
     tool_loop (count_action tool_counts (or_empty (get_field step ''action''))) rest"

text \<open>\<open>locate_tool_use\<close> on the loaded trajectory.\<close>

definition locate_tool_use :: "step list \<Rightarrow> counts" where
  "locate_tool_use trajectory = tool_loop [] trajectory"

section \<open>Notions used to state the properties\<close>

text \<open>The condition under which the loop of \<open>locate_search\<close> appends the index of a step.\<close>

definition search_hit :: "step \<Rightarrow> bool" where
  "search_hit step =
     (let action = or_empty (get_field step ''action'')
      in \<not> is_modification action \<and> is_search_step action)"

text \<open>A step with each of its two fields, when absent, filled in as the empty text.\<close>

definition with_defaults :: "step \<Rightarrow> step" where
  "with_defaults step =
     step(''action'' \<mapsto> get_field step ''action'', ''thought'' \<mapsto> get_field step ''thought'')"


text \<open>The JSON objects \<open>{"action": a}\<close> and \<open>{"action": a, "thought": t}\<close>.\<close>

definition action_step :: "string \<Rightarrow> step" where
  "action_step a = [''action'' \<mapsto> JStr a]"

definition full_step :: "string \<Rightarrow> string \<Rightarrow> step" where
  "full_step a t = [''action'' \<mapsto> JStr a, ''thought'' \<mapsto> JStr t]"

text \<open>The number of attributions a dictionary of counts holds: the sum of its counts.\<close>

definition total :: "counts \<Rightarrow> nat" where
  "total tool_counts = sum_list (map snd tool_counts)"

section \<open>The loops, as selections of indices\<close>

lemma indices_Cons:
  "map ((+) idx) (filter (\<lambda>j. P ((x # xs) ! j)) [0..<Suc (length xs)]) =
     (if P x then [idx] else []) @ map ((+) (Suc idx)) (filter (\<lambda>j. P (xs ! j)) [0..<length xs])"
proof -
  have "[0..<Suc (length xs)] = 0 # map Suc [0..<length xs]"
    by (simp add: upt_conv_Cons map_Suc_upt del: upt_Suc)
  then show ?thesis
    by (simp add: filter_map comp_def del: upt_Suc)
qed

lemma search_loop_Cons:
  "search_loop idx (step # rest) acc =
     search_loop (Suc idx) rest (if search_hit step then acc @ [idx] else acc)"
  by (simp add: search_hit_def Let_def)

lemma search_loop_eq:
  "search_loop idx steps acc =
     acc @ map ((+) idx) (filter (\<lambda>j. search_hit (steps ! j)) [0..<length steps])"
proof (induction steps arbitrary: idx acc)
  case Nil
  then show ?case by simp
next
  case (Cons step rest)
  have "search_loop idx (step # rest) acc =
          (if search_hit step then acc @ [idx] else acc) @
            map ((+) (Suc idx)) (filter (\<lambda>j. search_hit (rest ! j)) [0..<length rest])"
    unfolding search_loop_Cons by (rule Cons.IH)
  also have "\<dots> = acc @ map ((+) idx)
      (filter (\<lambda>j. search_hit ((step # rest) ! j)) [0..<Suc (length rest)])"
    unfolding indices_Cons [of idx search_hit step rest] by simp
  finally show ?case by simp
qed

lemma locate_search_eq:
  "locate_search trajectory = filter (\<lambda>j. search_hit (trajectory ! j)) [0..<length trajectory]"
  by (simp add: locate_search_def search_loop_eq map_idI)

lemma reproduction_loop_Inr:
  "reproduction_loop idx steps acc = Inr r \<Longrightarrow>
     r = acc @ map ((+) idx) (filter (\<lambda>j. is_reproduction (steps ! j) = Inr True) [0..<length steps])"
proof (induction steps arbitrary: idx acc)
  case Nil
  then show ?case by simp
next
  case (Cons step rest)
  show ?case
  proof (cases "is_reproduction step")
    case (Inl e)
    with Cons.prems show ?thesis by simp
  next
    case (Inr b)
    with Cons.prems
    have "reproduction_loop (Suc idx) rest (if b then acc @ [idx] else acc) = Inr r"
      by (cases b) simp_all
    then have "r = (if b then acc @ [idx] else acc) @
        map ((+) (Suc idx)) (filter (\<lambda>j. is_reproduction (rest ! j) = Inr True) [0..<length rest])"
      by (rule Cons.IH)
    also have "\<dots> = acc @ map ((+) idx)
        (filter (\<lambda>j. is_reproduction ((step # rest) ! j) = Inr True) [0..<Suc (length rest)])"
      unfolding indices_Cons [of idx "\<lambda>s. is_reproduction s = Inr True" step rest]
      using Inr by simp
    finally show ?thesis by simp
  qed
qed

lemma locate_reproduction_code_Inr:
  "locate_reproduction_code trajectory = Inr r \<Longrightarrow>
     r = filter (\<lambda>j. is_reproduction (trajectory ! j) = Inr True) [0..<length trajectory]"
  by (drule reproduction_loop_Inr [of 0 trajectory "[]", folded locate_reproduction_code_def])
     (simp add: map_idI)

lemma is_reproduction_returns:
  "get_field step ''action'' \<noteq> JNull \<Longrightarrow> \<exists>b. is_reproduction step = Inr b"
  by (cases "get_field step ''action''")
     (auto simp: is_reproduction_def Let_def split: option.splits)

lemma is_reproduction_raises:
  "get_field step ''action'' = JNull \<Longrightarrow> is_reproduction step = Inl TypeError"
  by (simp add: is_reproduction_def)

lemma reproduction_loop_returns:
  "\<forall>step \<in> set steps. get_field step ''action'' \<noteq> JNull \<Longrightarrow>
     \<exists>r. reproduction_loop idx steps acc = Inr r"
proof (induction steps arbitrary: idx acc)
  case Nil
  then show ?case by simp
next
  case (Cons step rest)
  then obtain b where "is_reproduction step = Inr b"
    using is_reproduction_returns [of step] by auto
  with Cons show ?case by (cases b) simp_all
qed

section \<open>Substrings, runs and the patterns of \<open>locate_reproduction_code\<close>\<close>

subsection \<open>Substrings\<close>

lemma contains_iff: "contains sub s \<longleftrightarrow> (\<exists>pre post. s = pre @ sub @ post)"
proof (induction s)
  case Nil
  then show ?case by auto
next
  case (Cons c cs)
  show ?case
  proof
    assume "contains sub (c # cs)"
    then consider "prefix sub (c # cs)" | "contains sub cs" by auto
    then show "\<exists>pre post. c # cs = pre @ sub @ post"
    proof cases
      case 1
      then obtain post where "c # cs = sub @ post" by (auto simp: prefix_def)
      then have "c # cs = [] @ sub @ post" by simp
      then show ?thesis by blast
    next
      case 2
      with Cons.IH obtain pre post where "cs = pre @ sub @ post" by blast
      then have "c # cs = (c # pre) @ sub @ post" by simp
      then show ?thesis by blast
    qed
  next
    assume "\<exists>pre post. c # cs = pre @ sub @ post"
    then obtain pre post where eq: "c # cs = pre @ sub @ post" by blast
    show "contains sub (c # cs)"
    proof (cases pre)
      case Nil
      with eq have "prefix sub (c # cs)" by (simp add: prefix_def)
      then show ?thesis by simp
    next
      case (Cons d pre')
      with eq have "cs = pre' @ sub @ post" by simp
      with Cons.IH have "contains sub cs" by blast
      then show ?thesis by simp
    qed
  qed
qed

lemma prefix_contains: "prefix sub s \<Longrightarrow> contains sub s"
  by (cases s) auto

subsection \<open>Runs of a character class\<close>


lemma runs_head:
  "\<exists>more. runs k p s =
     ((if takeWhile (cmatch k) s = [] then p else Some (last (takeWhile (cmatch k) s)),
       dropWhile (cmatch k) s) # more) \<and>
     (\<forall>(q, t) \<in> set more. t \<noteq> [] \<and> cmatch k (hd t))"
proof (induction s arbitrary: p)
  case Nil
  then show ?case by simp
next
  case (Cons c cs)
  show ?case
  proof (cases "cmatch k c")
    case True
    from Cons.IH [of "Some c"] obtain more where
      m: "runs k (Some c) cs =
        ((if takeWhile (cmatch k) cs = [] then Some c else Some (last (takeWhile (cmatch k) cs)),
          dropWhile (cmatch k) cs) # more)"
      and a: "\<forall>(q, t) \<in> set more. t \<noteq> [] \<and> cmatch k (hd t)"
      by blast
    have "runs k p (c # cs) =
        ((if takeWhile (cmatch k) (c # cs) = [] then p
          else Some (last (takeWhile (cmatch k) (c # cs))),
          dropWhile (cmatch k) (c # cs)) # (more @ [(p, c # cs)]))"
      using True m by simp
    moreover have "\<forall>(q, t) \<in> set (more @ [(p, c # cs)]). t \<noteq> [] \<and> cmatch k (hd t)"
      using a True by auto
    ultimately show ?thesis by blast
  next
    case False
    then show ?thesis by simp
  qed
qed

lemma rmatch_Plus_Nil: "rmatch (Plus k) (p, []) = []"
  by simp

lemma rmatch_Plus_Cons:
  "rmatch (Plus k) (p, c # cs) = (if cmatch k c then runs k (Some c) cs else [])"
  by simp


lemma runs_set:
  "set (runs k p s) =
     {(if xs = [] then p else Some (last xs), t) | xs t. s = xs @ t \<and> (\<forall>c \<in> set xs. cmatch k c)}"
  (is "_ = ?R p s")
proof (induction s arbitrary: p)
  case Nil
  then show ?case by auto
next
  case (Cons c cs)
  show ?case
  proof (cases "cmatch k c")
    case True
    have "?R p (c # cs) = insert (p, c # cs) (?R (Some c) cs)"
    proof (intro set_eqI iffI)
      fix x assume "x \<in> ?R p (c # cs)"
      then obtain xs t where x: "x = (if xs = [] then p else Some (last xs), t)"
        and eq: "c # cs = xs @ t" and all: "\<forall>c \<in> set xs. cmatch k c" by blast
      show "x \<in> insert (p, c # cs) (?R (Some c) cs)"
      proof (cases xs)
        case Nil
        with x eq show ?thesis by simp
      next
        case (Cons d ds)
        with eq have "cs = ds @ t" and "d = c" by simp_all
        moreover from Cons all have "\<forall>c \<in> set ds. cmatch k c" by simp
        moreover from Cons x \<open>d = c\<close>
        have "x = (if ds = [] then Some c else Some (last ds), t)" by simp
        ultimately have "x \<in> ?R (Some c) cs" by blast
        then show ?thesis by simp
      qed
    next
      fix x assume "x \<in> insert (p, c # cs) (?R (Some c) cs)"
      then consider "x = (p, c # cs)" | "x \<in> ?R (Some c) cs" by blast
      then show "x \<in> ?R p (c # cs)"
      proof cases
        case 1
        then have "x = (if ([]::string) = [] then p else Some (last []), c # cs)
            \<and> c # cs = [] @ (c # cs) \<and> (\<forall>c \<in> set ([]::string). cmatch k c)"
          by simp
        then show ?thesis by blast
      next
        case 2
        then obtain xs t where x: "x = (if xs = [] then Some c else Some (last xs), t)"
          and eq: "cs = xs @ t" and all: "\<forall>c \<in> set xs. cmatch k c" by blast
        then have "x = (if c # xs = [] then p else Some (last (c # xs)), t)
            \<and> c # cs = (c # xs) @ t \<and> (\<forall>d \<in> set (c # xs). cmatch k d)"
          using True by simp
        then show ?thesis by blast
      qed
    qed
    with True Cons.IH [of "Some c"] show ?thesis by simp
  next
    case False
    have "?R p (c # cs) = {(p, c # cs)}"
    proof (intro set_eqI iffI)
      fix x assume "x \<in> ?R p (c # cs)"
      then obtain xs t where x: "x = (if xs = [] then p else Some (last xs), t)"
        and eq: "c # cs = xs @ t" and all: "\<forall>c \<in> set xs. cmatch k c" by blast
      have "xs = []"
      proof (cases xs)
        case (Cons d ds)
        with eq all False show ?thesis by simp
      qed simp
      with x eq show "x \<in> {(p, c # cs)}" by simp
    next
      fix x assume "x \<in> {(p, c # cs)}"
      then have "x = (if ([]::string) = [] then p else Some (last []), c # cs)
            \<and> c # cs = [] @ (c # cs) \<and> (\<forall>c \<in> set ([]::string). cmatch k c)"
        by simp
      then show "x \<in> ?R p (c # cs)" by blast
    qed
    with False show ?thesis by simp
  qed
qed

lemma rmatch_Plus_set:
  "set (rmatch (Plus k) (p, s)) =
     {(Some (last xs), t) | xs t. s = xs @ t \<and> xs \<noteq> [] \<and> (\<forall>c \<in> set xs. cmatch k c)}"
proof (cases s)
  case Nil
  then show ?thesis by auto
next
  case (Cons c cs)
  show ?thesis
  proof (cases "cmatch k c")
    case True
    have "set (runs k (Some c) cs) =
       {(Some (last xs), t) | xs t. c # cs = xs @ t \<and> xs \<noteq> [] \<and> (\<forall>c \<in> set xs. cmatch k c)}"
      (is "_ = ?S")
    proof (intro set_eqI iffI)
      fix x assume "x \<in> set (runs k (Some c) cs)"
      then obtain xs t where x: "x = (if xs = [] then Some c else Some (last xs), t)"
        and eq: "cs = xs @ t" and all: "\<forall>c \<in> set xs. cmatch k c"
        unfolding runs_set by blast
      then have "x = (Some (last (c # xs)), t) \<and> c # cs = (c # xs) @ t \<and> c # xs \<noteq> []
          \<and> (\<forall>d \<in> set (c # xs). cmatch k d)"
        using True by simp
      then show "x \<in> ?S" by blast
    next
      fix x assume "x \<in> ?S"
      then obtain xs t where x: "x = (Some (last xs), t)" and eq: "c # cs = xs @ t"
        and ne: "xs \<noteq> []" and all: "\<forall>c \<in> set xs. cmatch k c" by blast
      from ne obtain d ds where xs: "xs = d # ds" by (cases xs) auto
      with eq have "cs = ds @ t" by simp
      moreover from xs all have "\<forall>c \<in> set ds. cmatch k c" by simp
      moreover from xs x eq have "x = (if ds = [] then Some c else Some (last ds), t)" by simp
      ultimately show "x \<in> set (runs k (Some c) cs)" unfolding runs_set by blast
    qed
    with True Cons show ?thesis by simp
  next
    case False
    have "xs = []" if "c # cs = xs @ t" "\<forall>c \<in> set xs. cmatch k c" for xs t
      using that False by (cases xs) auto
    with False Cons show ?thesis by auto
  qed
qed


subsection \<open>The create pattern\<close>

lemma cmatch_Space_eq: "cmatch Space = is_space"
  by (rule ext) simp

lemma cmatch_NonSpace_eq: "cmatch NonSpace = (\<lambda>c. \<not> is_space c)"
  by (rule ext) simp

lemma concat_map_all_Nil: "\<forall>x \<in> set xs. f x = [] \<Longrightarrow> concat (map f xs) = []"
  by (induction xs) auto

lemma first_group_after_spaces:
  assumes "is_space c"
  shows "concat (map (\<lambda>(p1, s1). map (\<lambda>(p2, s2). take (length s1 - length s2) s1)
                                     (rmatch (Plus NonSpace) (p1, s1)))
                     (runs Space (Some c) cs)) =
         (if dropWhile is_space cs = [] then []
          else takeWhile (\<lambda>c. \<not> is_space c) (dropWhile is_space cs) #
               tl (map (\<lambda>(p2, s2). take (length (dropWhile is_space cs) - length s2) (dropWhile is_space cs))
                    (rmatch (Plus NonSpace)
                      (if takeWhile is_space cs = [] then Some c else Some (last (takeWhile is_space cs)),
                       dropWhile is_space cs))))"
    (is "concat (map ?f _) = _")
proof -
  let ?t = "dropWhile is_space cs"
  let ?q = "if takeWhile is_space cs = [] then Some c else Some (last (takeWhile is_space cs))"
  from runs_head [of Space "Some c" cs] obtain more where
    r: "runs Space (Some c) cs = (?q, ?t) # more"
    and m: "\<forall>(q, t) \<in> set more. t \<noteq> [] \<and> is_space (hd t)"
    unfolding cmatch_Space_eq by blast
  have "\<forall>x \<in> set more. ?f x = []"
  proof
    fix x assume "x \<in> set more"
    with m obtain q t where "x = (q, t)" "t \<noteq> []" "is_space (hd t)" by (cases x) auto
    then show "?f x = []" by (cases t) auto
  qed
  then have rest: "concat (map ?f more) = []" by (rule concat_map_all_Nil)
  show ?thesis
  proof (cases "?t")
    case Nil
    with r rest show ?thesis by simp
  next
    case (Cons d ds)
    then have d: "\<not> is_space d" by (metis hd_dropWhile list.sel(1) list.distinct(1))
    from runs_head [of NonSpace "Some d" ds] obtain q2 more2 where
      r2: "runs NonSpace (Some d) ds = (q2, dropWhile (\<lambda>c. \<not> is_space c) ds) # more2"
      unfolding cmatch_NonSpace_eq by blast
    have len: "length ds - length (dropWhile (\<lambda>c. \<not> is_space c) ds)
        = length (takeWhile (\<lambda>c. \<not> is_space c) ds)"
      by (metis add_diff_cancel_right' length_append takeWhile_dropWhile_id)
    have "take (length (d # ds) - length (dropWhile (\<lambda>c. \<not> is_space c) ds)) (d # ds)
        = takeWhile (\<lambda>c. \<not> is_space c) (d # ds)"
    proof -
      have "length (dropWhile (\<lambda>c. \<not> is_space c) ds) \<le> length ds"
        by (rule length_dropWhile_le)
      then have "length (d # ds) - length (dropWhile (\<lambda>c. \<not> is_space c) ds)
          = Suc (length (takeWhile (\<lambda>c. \<not> is_space c) ds))"
        using len by simp
      moreover have "take (length (takeWhile (\<lambda>c. \<not> is_space c) ds)) ds
          = takeWhile (\<lambda>c. \<not> is_space c) ds"
        by (metis append_eq_conv_conj takeWhile_dropWhile_id)
      ultimately show ?thesis using d by simp
    qed
    with r rest Cons d r2 show ?thesis by simp
  qed
qed

lemma match_create_eq:
  "match_create action =
     (let rest = drop (length ''str_replace_editor create'') action
      in if prefix ''str_replace_editor create'' action \<and> rest \<noteq> [] \<and> is_space (hd rest)
            \<and> dropWhile is_space rest \<noteq> []
         then Some (takeWhile (\<lambda>c. \<not> is_space c) (dropWhile is_space rest))
         else None)"
proof (cases "prefix ''str_replace_editor create'' action")
  case False
  then show ?thesis by (simp add: match_create_def create_prefix_def Let_def)
next
  case True
  let ?rest = "drop (length ''str_replace_editor create'') action"
  show ?thesis
  proof (cases ?rest)
    case Nil
    with True show ?thesis by (simp add: match_create_def create_prefix_def Let_def)
  next
    case (Cons c cs)
    show ?thesis
    proof (cases "is_space c")
      case False
      with True Cons show ?thesis by (simp add: match_create_def create_prefix_def Let_def)
    next
      case sp: True
      have pre: "rmatch create_prefix (None, action) = runs Space (Some c) cs"
        using True Cons sp by (simp add: create_prefix_def)
      have dw: "dropWhile is_space ?rest = dropWhile is_space cs"
        using Cons sp by simp
      show ?thesis
        unfolding match_create_def pre first_group_after_spaces [OF sp] Let_def dw
        using True Cons sp by simp
    qed
  qed
qed

lemma match_create_Some:
  assumes "match_create action = Some filepath"
  shows "\<exists>ws rest. action = ''str_replace_editor create'' @ ws @ filepath @ rest \<and>
           ws \<noteq> [] \<and> (\<forall>c \<in> set ws. is_space c) \<and>
           filepath \<noteq> [] \<and> (\<forall>c \<in> set filepath. \<not> is_space c) \<and>
           (rest = [] \<or> is_space (hd rest))"
proof -
  let ?l = "''str_replace_editor create''"
  let ?rest = "drop (length ?l) action"
  let ?t = "dropWhile is_space ?rest"
  from assms have pre: "prefix ?l action" and ne: "?rest \<noteq> []" and sp: "is_space (hd ?rest)"
    and t: "?t \<noteq> []" and fp: "filepath = takeWhile (\<lambda>c. \<not> is_space c) ?t"
    unfolding match_create_eq Let_def by (auto split: if_splits)
  let ?ws = "takeWhile is_space ?rest"
  let ?post = "dropWhile (\<lambda>c. \<not> is_space c) ?t"
  from pre have "action = ?l @ ?rest" by (metis append_eq_conv_conj prefix_def)
  also have "?rest = ?ws @ ?t" by simp
  also have "?t = filepath @ ?post" unfolding fp by simp
  finally have "action = ?l @ ?ws @ filepath @ ?post" .
  moreover have "?ws \<noteq> []" using ne sp by (cases ?rest) auto
  moreover have "\<forall>c \<in> set ?ws. is_space c" by (auto dest: set_takeWhileD)
  moreover have "filepath \<noteq> []"
    unfolding fp using t hd_dropWhile [of is_space ?rest] by (cases ?t) auto
  moreover have "\<forall>c \<in> set filepath. \<not> is_space c" unfolding fp by (auto dest: set_takeWhileD)
  moreover have "?post = [] \<or> is_space (hd ?post)"
    using hd_dropWhile [of "\<lambda>c. \<not> is_space c" ?t] by auto
  ultimately show ?thesis by blast
qed

lemma match_create_SomeI:
  assumes "action = ''str_replace_editor create'' @ ws @ filepath @ rest"
    and "ws \<noteq> []" and "\<forall>c \<in> set ws. is_space c"
    and "filepath \<noteq> []" and "\<forall>c \<in> set filepath. \<not> is_space c"
    and "rest = [] \<or> is_space (hd rest)"
  shows "match_create action = Some filepath"
proof -
  let ?l = "''str_replace_editor create''"
  have d: "drop (length ?l) action = ws @ filepath @ rest" using assms(1) by simp
  have p: "prefix ?l action" using assms(1) by simp
  from assms(4) obtain f fs where f: "filepath = f # fs" by (cases filepath) auto
  with assms(5) have nf: "\<not> is_space f" by simp
  have dw: "dropWhile is_space (ws @ filepath @ rest) = filepath @ rest"
    using assms(3) f nf by (simp add: dropWhile_append)
  have tw: "takeWhile (\<lambda>c. \<not> is_space c) (filepath @ rest) = filepath"
  proof (cases rest)
    case Nil
    with assms(5) show ?thesis by simp
  next
    case (Cons r rs)
    with assms(6) have "is_space r" by simp
    with Cons assms(5) show ?thesis by (simp add: takeWhile_append)
  qed
  have h: "is_space (hd (ws @ filepath @ rest))" using assms(2,3) by (cases ws) auto
  show ?thesis
    unfolding match_create_eq Let_def d dw tw using p h assms(2) f by simp
qed

subsection \<open>The location pattern\<close>

lemma rmatch_Seq_nonempty:
  "rmatch (Seq r1 r2) st \<noteq> [] \<longleftrightarrow> (\<exists>st' \<in> set (rmatch r1 st). rmatch r2 st' \<noteq> [])"
  by (auto simp: concat_eq_Nil_conv)

lemma testbed_root_pattern_match:
  assumes "name \<noteq> []" and "\<forall>c \<in> set name. c \<noteq> CHR ''/''"
  shows "rmatch testbed_root_pattern (None, ''/testbed/'' @ name @ ''.py'') \<noteq> []"
proof -
  have "(Some (last name), ''.py'') \<in> set (rmatch (Plus NotSlash) (Some CHR ''/'', name @ ''.py''))"
    unfolding rmatch_Plus_set using assms by auto
  moreover have "rmatch (Seq (Lit ''.py'') Eol) (Some (last name), ''.py'') \<noteq> []"
    by simp
  ultimately have "rmatch (Seq (Plus NotSlash) (Seq (Lit ''.py'') Eol)) (Some CHR ''/'', name @ ''.py'') \<noteq> []"
    unfolding rmatch_Seq_nonempty [of "Plus NotSlash"] by blast
  then show ?thesis
    by (simp add: testbed_root_pattern_def)
qed

lemma basename_append:
  "\<forall>c \<in> set name. c \<noteq> CHR ''/'' \<Longrightarrow> basename (dir @ CHR ''/'' # name) = name"
  by (simp add: basename_def takeWhile_append)

lemma lower_py: "lower (name @ ''.py'') = lower name @ ''.py''"
  by (simp add: lower_def lower_char_def)

lemma is_reproduction_JStr:
  "get_field step ''action'' = JStr action \<Longrightarrow>
   is_reproduction step =
     (if \<not> contains ''str_replace_editor create'' action then Inr False
      else case match_create action of
        None \<Rightarrow> Inr False
      | Some filepath \<Rightarrow>
          if \<not> suffix ''.py'' (lower (basename filepath)) then Inr False
          else if list_ex (\<lambda>keyword. contains keyword (lower (basename filepath))) filename_keywords
            then Inr True
          else if list_ex (\<lambda>pattern. re_search pattern (lower (or_empty (get_field step ''thought''))))
                    thought_patterns
            then Inr True
          else if rmatch testbed_root_pattern (None, filepath) \<noteq> []
                   \<and> lower (basename filepath) \<notin> set excluded_names
            then Inr True
          else Inr False)"
  by (simp add: is_reproduction_def Let_def split: option.splits)

lemma get_field_full_step:
  "get_field (full_step a t) ''action'' = JStr a"
  "get_field (full_step a t) ''thought'' = JStr t"
  by (simp_all add: get_field_def full_step_def)

lemma locate_reproduction_code_single:
  "locate_reproduction_code [step] =
     (case is_reproduction step of Inl e \<Rightarrow> Inl e | Inr b \<Rightarrow> Inr (if b then [0] else []))"
  by (simp add: locate_reproduction_code_def split: sum.splits bool.splits)

lemma root_script_is_reproduction:
  assumes a: "get_field step ''action'' =
      JStr (''str_replace_editor create'' @ ws @ ''/testbed/'' @ name @ ''.py'' @ rest)"
    and ws: "ws \<noteq> []" "\<forall>c \<in> set ws. is_space c"
    and name: "name \<noteq> []" "\<forall>c \<in> set name. \<not> is_space c \<and> c \<noteq> CHR ''/''"
    and rest: "rest = [] \<or> is_space (hd rest)"
    and ex: "lower (name @ ''.py'') \<notin> set excluded_names"
  shows "is_reproduction step = Inr True"
proof -
  let ?fp = "''/testbed/'' @ name @ ''.py''"
  let ?action = "''str_replace_editor create'' @ ws @ ?fp @ rest"
  have ns: "\<forall>c \<in> set ?fp. \<not> is_space c"
    using name(2) by (auto simp: is_space_def)
  have m: "match_create ?action = Some ?fp"
    by (rule match_create_SomeI [where ws = ws and rest = rest]) (use ws ns rest in simp_all)
  have c: "contains ''str_replace_editor create'' ?action"
    by (rule prefix_contains) simp
  have "''/testbed/'' @ name @ ''.py'' = ''/testbed'' @ CHR ''/'' # (name @ ''.py'')" by simp
  then have b: "basename ?fp = name @ ''.py''"
    using basename_append [of "name @ ''.py''" "''/testbed''"] name(2) by simp
  have s: "suffix ''.py'' (lower (basename ?fp))"
    unfolding b lower_py by (simp add: suffix_def)
  have t: "rmatch testbed_root_pattern (None, ?fp) \<noteq> []"
    using testbed_root_pattern_match [of name] name by simp
  have a': "get_field step ''action'' = JStr ?action" using a by simp
  show ?thesis
    unfolding is_reproduction_JStr [OF a'] using c m s t ex b by simp
qed

lemma is_reproduction_True:
  assumes "is_reproduction step = Inr True"
  shows "\<exists>action filepath. get_field step ''action'' = JStr action \<and>
           contains ''str_replace_editor create'' action \<and>
           match_create action = Some filepath \<and>
           suffix ''.py'' (lower (basename filepath))"
proof (cases "get_field step ''action''")
  case JNull
  with assms show ?thesis by (simp add: is_reproduction_def)
next
  case (JStr action)
  with assms show ?thesis
    by (auto simp: is_reproduction_def Let_def split: if_splits option.splits)
qed


subsection \<open>Creations that no signal flags\<close>

lemma plain_creation_not_flagged:
  assumes c: "contains ''str_replace_editor create'' a"
    and m: "match_create a = Some fp"
    and k: "\<not> list_ex (\<lambda>keyword. contains keyword (lower (basename fp))) filename_keywords"
    and l: "rmatch testbed_root_pattern (None, fp) = [] \<or> lower (basename fp) \<in> set excluded_names"
    and t: "\<not> list_ex (\<lambda>pattern. re_search pattern (lower thought)) thought_patterns"
  shows "locate_reproduction_code [full_step a thought] = Inr []"
proof -
  have "is_reproduction (full_step a thought) = Inr False"
    unfolding is_reproduction_JStr [OF get_field_full_step(1)] get_field_full_step(2)
    using c m k l t by auto
  then show ?thesis by (simp add: locate_reproduction_code_single)
qed

lemma excluded_names_no_keyword:
  "list_all (\<lambda>f. \<not> list_ex (\<lambda>keyword. contains keyword f) filename_keywords) excluded_names"
  by code_simp

lemma excluded_root_script_not_flagged:
  assumes a: "get_field step ''action'' =
      JStr (''str_replace_editor create'' @ ws @ ''/testbed/'' @ name @ ''.py'' @ rest)"
    and ws: "ws \<noteq> []" "\<forall>c \<in> set ws. is_space c"
    and name: "\<forall>c \<in> set name. \<not> is_space c \<and> c \<noteq> CHR ''/''"
    and rest: "rest = [] \<or> is_space (hd rest)"
    and ex: "lower (name @ ''.py'') \<in> set excluded_names"
    and t: "\<not> list_ex (\<lambda>pattern. re_search pattern (lower (or_empty (get_field step ''thought''))))
              thought_patterns"
  shows "is_reproduction step = Inr False"
proof -
  let ?fp = "''/testbed/'' @ name @ ''.py''"
  let ?action = "''str_replace_editor create'' @ ws @ ?fp @ rest"
  have ns: "\<forall>c \<in> set ?fp. \<not> is_space c"
    using name by (auto simp: is_space_def)
  have m: "match_create ?action = Some ?fp"
    by (rule match_create_SomeI [where ws = ws and rest = rest]) (use ws ns rest in simp_all)
  have c: "contains ''str_replace_editor create'' ?action"
    by (rule prefix_contains) simp
  have "''/testbed/'' @ name @ ''.py'' = ''/testbed'' @ CHR ''/'' # (name @ ''.py'')" by simp
  then have b: "basename ?fp = name @ ''.py''"
    using basename_append [of "name @ ''.py''" "''/testbed''"] name by simp
  have k: "\<not> list_ex (\<lambda>keyword. contains keyword (lower (name @ ''.py''))) filename_keywords"
    using excluded_names_no_keyword ex unfolding list_all_iff by blast
  have a': "get_field step ''action'' = JStr ?action" using a by simp
  show ?thesis
    unfolding is_reproduction_JStr [OF a'] using c m k t ex b by simp
qed

subsection \<open>Absent fields\<close>

lemma get_field_with_defaults:
  "get_field (with_defaults step) ''action'' = get_field step ''action''"
  "get_field (with_defaults step) ''thought'' = get_field step ''thought''"
  by (simp_all add: get_field_def with_defaults_def)

lemma is_reproduction_with_defaults:
  "is_reproduction (with_defaults step) = is_reproduction step"
  by (simp add: is_reproduction_def get_field_with_defaults)

lemma reproduction_loop_with_defaults:
  "reproduction_loop idx (map with_defaults steps) acc = reproduction_loop idx steps acc"
  by (induction steps arbitrary: idx acc)
     (simp_all add: is_reproduction_with_defaults split: sum.splits bool.splits)

lemma search_loop_with_defaults:
  "search_loop idx (map with_defaults steps) acc = search_loop idx steps acc"
  by (induction steps arbitrary: idx acc) (simp_all add: get_field_with_defaults Let_def)

lemma tool_loop_with_defaults:
  "tool_loop tool_counts (map with_defaults steps) = tool_loop tool_counts steps"
  by (induction steps arbitrary: tool_counts) (simp_all add: get_field_with_defaults)

lemma absent_action_not_flagged:
  "step ''action'' = None \<Longrightarrow> is_reproduction step = Inr False"
  by (simp add: is_reproduction_def get_field_def)

section \<open>Counts\<close>

lemma map_of_assign: "map_of (assign d k v) = (map_of d)(k \<mapsto> v)"
  by (induction d k v rule: assign.induct) (auto simp: fun_eq_iff)

lemma count_of_bump:
  "count_of (bump d k) k' = count_of d k' + (if k = k' then 1 else 0)"
  by (simp add: count_of_def bump_def map_of_assign)

lemma count_of_Nil: "count_of [] k = 0"
  by (simp add: count_of_def)

lemma total_assign:
  "total (assign d k (Suc (count_of d k))) = Suc (total d)"
  by (induction d) (auto simp: total_def count_of_def)

lemma total_bump: "total (bump d k) = Suc (total d)"
  by (simp add: bump_def total_assign)

lemma count_of_foldl_bump:
  "count_of (foldl bump d ns) k = count_of d k + count_list ns k"
  by (induction ns arbitrary: d) (auto simp: count_of_bump)

lemma total_foldl_bump: "total (foldl bump d ns) = total d + length ns"
  by (induction ns arbitrary: d) (auto simp: total_bump)

subsection \<open>Each part of the counter adds a list of names that depends on the text only\<close>

lemma count_editor_names:
  "\<exists>ns. length ns \<le> 1 \<and> (\<forall>d. count_editor d action = foldl bump d ns)"
proof (cases "find (\<lambda>cmd. re_search (editor_pattern cmd) action) editor_commands")
  case None
  then have "length ([]::string list) \<le> 1 \<and> (\<forall>d. count_editor d action = foldl bump d [])"
    by (simp add: count_editor_def)
  then show ?thesis by blast
next
  case (Some cmd)
  then have "length [''str_replace_editor_'' @ cmd] \<le> 1 \<and>
      (\<forall>d. count_editor d action = foldl bump d [''str_replace_editor_'' @ cmd])"
    by (simp add: count_editor_def)
  then show ?thesis by blast
qed

lemma count_command_cases:
  "(\<forall>d. count_command d part = d) \<or> (\<exists>k. \<forall>d. count_command d part = bump d k)"
  by (cases "find (\<lambda>shell_cmd. re_search (shell_pattern shell_cmd) part) shell_commands")
     (auto simp: count_command_def)

lemma count_command_names:
  "\<exists>ns. length ns \<le> 1 \<and> (\<forall>d. count_command d part = foldl bump d ns)"
proof -
  from count_command_cases [of part] consider "\<forall>d. count_command d part = d"
    | k where "\<forall>d. count_command d part = bump d k" by blast
  then show ?thesis
  proof cases
    case 1
    then have "length ([]::string list) \<le> 1 \<and> (\<forall>d. count_command d part = foldl bump d [])"
      by simp
    then show ?thesis by blast
  next
    case 2
    then have "length [k] \<le> 1 \<and> (\<forall>d. count_command d part = foldl bump d [k])"
      by simp
    then show ?thesis by blast
  qed
qed

lemma count_parts_names:
  "\<exists>ns. length ns \<le> length parts \<and> (\<forall>d. count_parts d parts = foldl bump d ns)"
proof (induction parts)
  case Nil
  have "length ([]::string list) \<le> length ([]::string list) \<and>
      (\<forall>d. count_parts d [] = foldl bump d [])" by simp
  then show ?case by blast
next
  case (Cons part parts)
  from count_command_names [of "strip part"] obtain ms where
    ms: "length ms \<le> 1" "\<forall>d. count_command d (strip part) = foldl bump d ms" by blast
  from Cons.IH obtain ns where
    ns: "length ns \<le> length parts" "\<forall>d. count_parts d parts = foldl bump d ns" by blast
  have "length (ms @ ns) \<le> length (part # parts) \<and>
      (\<forall>d. count_parts d (part # parts) = foldl bump d (ms @ ns))"
    using ms ns by simp
  then show ?case by blast
qed

lemma count_action_names: "\<exists>ns. \<forall>d. count_action d action = foldl bump d ns"
proof -
  have e: "\<exists>ns. \<forall>d. d = foldl bump d ns"
  proof -
    have "\<forall>d. d = foldl bump d ([]::string list)" by simp
    then show ?thesis by blast
  qed
  show ?thesis
    unfolding count_action_def Let_def
    using e count_editor_names [of action] count_parts_names count_command_names
    by (auto split: if_splits) blast+
qed

lemma tool_loop_names: "\<exists>ns. \<forall>d. tool_loop d steps = foldl bump d ns"
proof (induction steps)
  case Nil
  have "\<forall>d. tool_loop d [] = foldl bump d ([]::string list)" by simp
  then show ?case by blast
next
  case (Cons step steps)
  from count_action_names [of "or_empty (get_field step ''action'')"] obtain ms where
    ms: "\<forall>d. count_action d (or_empty (get_field step ''action'')) = foldl bump d ms" by blast
  from Cons.IH obtain ns where ns: "\<forall>d. tool_loop d steps = foldl bump d ns" by blast
  have "\<forall>d. tool_loop d (step # steps) = foldl bump d (ms @ ns)"
    using ms ns by simp
  then show ?case by blast
qed

lemma tool_loop_append: "tool_loop d (xs @ ys) = tool_loop (tool_loop d xs) ys"
  by (induction xs arbitrary: d) simp_all

lemma count_of_tool_loop:
  "count_of (tool_loop d steps) k = count_of d k + count_of (tool_loop [] steps) k"
proof -
  from tool_loop_names [of steps] obtain ns where "\<forall>d. tool_loop d steps = foldl bump d ns"
    by blast
  then show ?thesis by (simp add: count_of_foldl_bump count_of_Nil)
qed

lemma count_of_count_command:
  "count_of (count_command d part) k = count_of d k + count_of (count_command [] part) k"
proof -
  from count_command_names [of part] obtain ns where
    "\<forall>d. count_command d part = foldl bump d ns" by blast
  then show ?thesis by (simp add: count_of_foldl_bump count_of_Nil)
qed

lemma count_of_count_parts:
  "count_of (count_parts d parts) k =
     count_of d k + (\<Sum>part \<leftarrow> parts. count_of (count_command [] (strip part)) k)"
proof (induction parts arbitrary: d)
  case Nil
  then show ?case by simp
next
  case (Cons part parts)
  show ?case
    unfolding count_parts.simps Cons.IH count_of_count_command [of d] by simp
qed

section \<open>Words, stripping and splitting\<close>







lemma split_acc_hd:
  assumes "sep \<noteq> []" and "contains sep s"
  shows "\<exists>pre rest. s = pre @ sep @ rest \<and> \<not> contains sep pre \<and>
           hd (split_acc sep acc s) = rev acc @ pre"
  using assms(2)
proof (induction s arbitrary: acc)
  case Nil
  with assms(1) show ?case by simp
next
  case (Cons c cs)
  show ?case
  proof (cases "prefix sep (c # cs)")
    case True
    then have h: "hd (split_acc sep acc (c # cs)) = rev acc @ []" by simp
    from True obtain rest where "c # cs = sep @ rest" by (auto simp: prefix_def)
    then have "c # cs = [] @ sep @ rest" by simp
    moreover have "\<not> contains sep []" using assms(1) by simp
    ultimately show ?thesis using h by blast
  next
    case False
    with Cons.prems have "contains sep cs" by simp
    from Cons.IH [OF this, of "c # acc"] obtain pre rest where
      p: "cs = pre @ sep @ rest" "\<not> contains sep pre"
      "hd (split_acc sep (c # acc) cs) = rev (c # acc) @ pre" by blast
    have "\<not> prefix sep (c # pre)"
    proof
      assume "prefix sep (c # pre)"
      moreover have "prefix (c # pre) (c # cs)" using p(1) by simp
      ultimately have "prefix sep (c # cs)" by (rule prefix_order.trans)
      with False show False by simp
    qed
    with p have "c # cs = (c # pre) @ sep @ rest \<and> \<not> contains sep (c # pre) \<and>
        hd (split_acc sep acc (c # cs)) = rev acc @ (c # pre)"
      using False by simp
    then show ?thesis by blast
  qed
qed

lemma split_hd:
  "sep \<noteq> [] \<Longrightarrow> contains sep s \<Longrightarrow>
     \<exists>rest. s = hd (split sep s) @ sep @ rest \<and> \<not> contains sep (hd (split sep s))"
  using split_acc_hd [of sep s "[]"] by (auto simp: split_def)


section \<open>Patterns anchored at the start\<close>






section \<open>One action of the counter\<close>



lemma count_action_piped:
  "\<not> prefix ''str_replace_editor'' action \<Longrightarrow> \<not> contains '' && '' (strip action) \<Longrightarrow>
   contains '' | '' (strip action) \<Longrightarrow>
     count_action d action = count_command d (strip (hd (split '' | '' (strip action))))"
  by (cases "action = []") (simp_all add: count_action_def Let_def strip_def)



section \<open>The shell patterns of \<open>locate_search\<close>\<close>









section \<open>Results: indices\<close>

text \<open>
  Claim C3. For every trajectory, the indices that \<open>locate_search\<close> returns, and the
  indices that \<open>locate_reproduction_code\<close> returns, are strictly increasing, without
  duplicates, and each is a position of the trajectory (\<open>0 \<le> i\<close> holds of every
  natural number). \<open>locate_reproduction_code\<close> returns whenever no action is \<open>null\<close>.
\<close>

theorem indices_increasing_in_range:
  "sorted_wrt (<) (locate_search traj) \<and> distinct (locate_search traj) \<and>
   (\<forall>i \<in> set (locate_search traj). i < length traj) \<and>
   (\<forall>r. locate_reproduction_code traj = Inr r \<longrightarrow>
        sorted_wrt (<) r \<and> distinct r \<and> (\<forall>i \<in> set r. i < length traj)) \<and>
   ((\<forall>step \<in> set traj. get_field step ''action'' \<noteq> JNull) \<longrightarrow>
        (\<exists>r. locate_reproduction_code traj = Inr r))"
proof -
  have search: "sorted_wrt (<) (locate_search traj) \<and> distinct (locate_search traj) \<and>
      (\<forall>i \<in> set (locate_search traj). i < length traj)"
    unfolding locate_search_eq by (auto simp: sorted_wrt_filter)
  have repro: "sorted_wrt (<) r \<and> distinct r \<and> (\<forall>i \<in> set r. i < length traj)"
    if "locate_reproduction_code traj = Inr r" for r
    unfolding locate_reproduction_code_Inr [OF that] by (auto simp: sorted_wrt_filter)
  have returns: "\<exists>r. locate_reproduction_code traj = Inr r"
    if "\<forall>step \<in> set traj. get_field step ''action'' \<noteq> JNull"
    unfolding locate_reproduction_code_def using that by (rule reproduction_loop_returns)
  from search repro returns show ?thesis by blast
qed

text \<open>The property at a trajectory of three steps.\<close>

theorem indices_increasing_in_range_witness:
  "locate_search [action_step ''grep -rn TODO .'',
      full_step ''str_replace_editor create /testbed/reproduce_bug.py'' '''',
      action_step ''ls''] = [0, 2] \<and>
   locate_reproduction_code [action_step ''grep -rn TODO .'',
      full_step ''str_replace_editor create /testbed/reproduce_bug.py'' '''',
      action_step ''ls''] = Inr [1] \<and>
   sorted_wrt (<) [0, 2 :: nat] \<and> distinct [0, 2 :: nat] \<and> (2 :: nat) < 3 \<and>
   sorted_wrt (<) [1 :: nat] \<and> (1 :: nat) < 3"
proof -
  let ?T = "[action_step ''grep -rn TODO .'',
      full_step ''str_replace_editor create /testbed/reproduce_bug.py'' '''',
      action_step ''ls'']"
  have s: "locate_search ?T = [0, 2]" by code_simp
  have r: "locate_reproduction_code ?T = Inr [1]" by code_simp
  from indices_increasing_in_range [of ?T] s r show ?thesis by simp
qed

section \<open>Results: \<open>locate_search\<close>\<close>

text \<open>
  Claim C2. If the action of step \<open>i\<close> matches one of the four modification patterns
  (\<open>str_replace_editor\<close> with \<open>str_replace\<close>, \<open>create\<close>, \<open>insert\<close> or
  \<open>undo_edit\<close>), then \<open>i\<close> is not in the result of \<open>locate_search\<close>, whatever
  else the action contains; the action \<open>str_replace_editor create /workspace/a.py\<close>
  is excluded.
\<close>

theorem modification_excluded_from_search:
  "(\<forall>traj i. i < length traj \<and> is_modification (or_empty (get_field (traj ! i) ''action''))
       \<longrightarrow> i \<notin> set (locate_search traj)) \<and>
   locate_search [action_step ''str_replace_editor create /workspace/a.py''] = []"
proof -
  have "i \<notin> set (locate_search traj)"
    if "is_modification (or_empty (get_field (traj ! i) ''action''))" for traj i
    using that unfolding locate_search_eq by (simp add: search_hit_def)
  moreover have "locate_search [action_step ''str_replace_editor create /workspace/a.py''] = []"
    by code_simp
  ultimately show ?thesis by blast
qed

text \<open>
  A creation chained with a \<open>grep\<close>: the shell patterns find \<open>grep\<close> in it, and the
  step is excluded all the same.
\<close>

theorem modification_excluded_from_search_witness:
  "is_modification ''str_replace_editor create /workspace/a.py && grep -n main /workspace/a.py'' \<and>
   bash_search ''str_replace_editor create /workspace/a.py && grep -n main /workspace/a.py'' \<and>
   (1 :: nat) \<notin> set (locate_search [action_step ''grep -n main /workspace/a.py'',
      action_step ''str_replace_editor create /workspace/a.py && grep -n main /workspace/a.py''])"
proof -
  let ?a = "''str_replace_editor create /workspace/a.py && grep -n main /workspace/a.py''"
  let ?T = "[action_step ''grep -n main /workspace/a.py'', action_step ?a]"
  have m: "is_modification ?a" by code_simp
  have b: "bash_search ?a" by code_simp
  have g: "or_empty (get_field (?T ! 1) ''action'') = ?a" by code_simp
  from modification_excluded_from_search m b g show ?thesis
    by (metis One_nat_def length_Cons lessI list.size(3))
qed

text \<open>
  Claim C10. A step that is not a modification is in the result of \<open>locate_search\<close>
  whenever its action starts with \<open>find_file\<close>, \<open>search_file\<close> or
  \<open>search_dir\<close>, or contains one of these names after a space, also where the name is
  only an argument of another command, as in \<open>echo find_file\<close>.
\<close>

theorem dedicated_search_names_included:
  "(\<forall>traj i cmd. i < length traj \<and>
       \<not> is_modification (or_empty (get_field (traj ! i) ''action'')) \<and>
       cmd \<in> {''find_file'', ''search_file'', ''search_dir''} \<and>
       (prefix cmd (or_empty (get_field (traj ! i) ''action'')) \<or>
        contains ('' '' @ cmd) (or_empty (get_field (traj ! i) ''action'')))
       \<longrightarrow> i \<in> set (locate_search traj)) \<and>
   locate_search [action_step ''echo find_file''] = [0]"
proof -
  have "i \<in> set (locate_search traj)"
    if "i < length traj" and "\<not> is_modification (or_empty (get_field (traj ! i) ''action''))"
      and "cmd \<in> {''find_file'', ''search_file'', ''search_dir''}"
      and "prefix cmd (or_empty (get_field (traj ! i) ''action'')) \<or>
        contains ('' '' @ cmd) (or_empty (get_field (traj ! i) ''action''))"
    for traj i cmd
  proof -
    from that(3,4) have "swe_agent_search (or_empty (get_field (traj ! i) ''action''))"
      unfolding swe_agent_search_def swe_agent_search_commands_def list_ex_iff by auto
    then have "search_hit (traj ! i)"
      using that(2) by (simp add: search_hit_def is_search_step_def)
    with that(1) show ?thesis unfolding locate_search_eq by simp
  qed
  moreover have "locate_search [action_step ''echo find_file''] = [0]"
    by code_simp
  ultimately show ?thesis by blast
qed

text \<open>The name as part of a file name that \<open>cat\<close> reads.\<close>

theorem dedicated_search_names_included_witness:
  "\<not> is_modification ''cat search_dir.txt'' \<and> contains '' search_dir'' ''cat search_dir.txt'' \<and>
   (0 :: nat) \<in> set (locate_search [action_step ''cat search_dir.txt''])"
proof -
  let ?T = "[action_step ''cat search_dir.txt'']"
  have g: "or_empty (get_field (?T ! 0) ''action'') = ''cat search_dir.txt''" by code_simp
  have m: "\<not> is_modification ''cat search_dir.txt''" by code_simp
  have c: "contains '' search_dir'' ''cat search_dir.txt''" by code_simp
  have "0 < length ?T \<and> \<not> is_modification (or_empty (get_field (?T ! 0) ''action'')) \<and>
       ''search_dir'' \<in> {''find_file'', ''search_file'', ''search_dir''} \<and>
       (prefix ''search_dir'' (or_empty (get_field (?T ! 0) ''action'')) \<or>
        contains ('' '' @ ''search_dir'') (or_empty (get_field (?T ! 0) ''action'')))"
    unfolding g using m c by simp
  with dedicated_search_names_included have "0 \<in> set (locate_search ?T)" by blast
  with m c show ?thesis by simp
qed

section \<open>Results: \<open>locate_reproduction_code\<close>\<close>

text \<open>
  Claim C5, as stated, fails: the source compares the lower-cased file name with
  \<open>.py\<close>, so the creation of \<open>/testbed/REPRODUCE.PY\<close> is flagged, and the name
  of this file does not end in \<open>.py\<close>.
\<close>

theorem python_extension_counterexample:
  "locate_reproduction_code
     [action_step ''str_replace_editor create /testbed/REPRODUCE.PY''] = Inr [0] \<and>
   match_create ''str_replace_editor create /testbed/REPRODUCE.PY'' = Some ''/testbed/REPRODUCE.PY'' \<and>
   basename ''/testbed/REPRODUCE.PY'' = ''REPRODUCE.PY'' \<and>
   \<not> suffix ''.py'' ''REPRODUCE.PY''"
  by code_simp

text \<open>
  Claim C5, amended. A step is flagged only if its action is a creation in the syntax the
  source recognises (the text \<open>str_replace_editor create\<close>, then whitespace, then the
  path, which runs to the next whitespace or to the end) and the name of the created
  file, in lower case, ends in \<open>.py\<close>. So a creation of a file whose lower-cased name
  does not end in \<open>.py\<close>, and an action that is no creation, is never flagged,
  whatever the file name, the thought or the location are.
\<close>

theorem flagged_only_python_creation:
  assumes "locate_reproduction_code traj = Inr r" and "i \<in> set r"
  shows "\<exists>action ws filepath rest.
           get_field (traj ! i) ''action'' = JStr action \<and>
           action = ''str_replace_editor create'' @ ws @ filepath @ rest \<and>
           ws \<noteq> [] \<and> (\<forall>c \<in> set ws. is_space c) \<and>
           filepath \<noteq> [] \<and> (\<forall>c \<in> set filepath. \<not> is_space c) \<and>
           (rest = [] \<or> is_space (hd rest)) \<and>
           match_create action = Some filepath \<and>
           suffix ''.py'' (lower (basename filepath))"
proof -
  from assms have "is_reproduction (traj ! i) = Inr True"
    unfolding locate_reproduction_code_Inr [OF assms(1)] by simp
  then obtain action filepath where a: "get_field (traj ! i) ''action'' = JStr action"
    and m: "match_create action = Some filepath"
    and s: "suffix ''.py'' (lower (basename filepath))"
    using is_reproduction_True by blast
  from match_create_Some [OF m] a m s show ?thesis by blast
qed

text \<open>
  A trajectory with a creation of a text file, a view of a Python file, both with a
  thought that matches a pattern, and a creation of a Python file whose name is in upper
  case: only the last is flagged.
\<close>

theorem flagged_only_python_creation_witness:
  "locate_reproduction_code
     [full_step ''str_replace_editor create /testbed/notes_test.txt'' ''a test case'',
      full_step ''str_replace_editor view /testbed/test_a.py'' ''reproduce the issue'',
      full_step ''str_replace_editor create /testbed/sub/Test_A.PY --file_text x'' ''''] = Inr [2] \<and>
   match_create ''str_replace_editor create /testbed/sub/Test_A.PY --file_text x''
     = Some ''/testbed/sub/Test_A.PY'' \<and>
   suffix ''.py'' (lower (basename ''/testbed/sub/Test_A.PY''))"
proof -
  let ?T = "[full_step ''str_replace_editor create /testbed/notes_test.txt'' ''a test case'',
      full_step ''str_replace_editor view /testbed/test_a.py'' ''reproduce the issue'',
      full_step ''str_replace_editor create /testbed/sub/Test_A.PY --file_text x'' '''']"
  have r: "locate_reproduction_code ?T = Inr [2]" by code_simp
  have g: "get_field (?T ! 2) ''action'' =
      JStr ''str_replace_editor create /testbed/sub/Test_A.PY --file_text x''" by code_simp
  have "2 \<in> set [2::nat]" by simp
  from flagged_only_python_creation [OF r this] obtain action filepath where
    a: "get_field (?T ! 2) ''action'' = JStr action"
    and m: "match_create action = Some filepath"
    and s: "suffix ''.py'' (lower (basename filepath))"
    by blast
  from a g have "action = ''str_replace_editor create /testbed/sub/Test_A.PY --file_text x''"
    by simp
  with m have m': "match_create ''str_replace_editor create /testbed/sub/Test_A.PY --file_text x''
      = Some filepath" by simp
  moreover have "match_create ''str_replace_editor create /testbed/sub/Test_A.PY --file_text x''
      = Some ''/testbed/sub/Test_A.PY''" by code_simp
  ultimately have "filepath = ''/testbed/sub/Test_A.PY''" by simp
  with r m' s show ?thesis by simp
qed

text \<open>
  Claim C4, as stated, fails. The workspace root of the source is \<open>/testbed\<close>, and the
  exclusion test compares the lower-cased file name with the three names: the creation
  of \<open>/testbed/Setup.py\<close> matches the location pattern, its file name \<open>Setup.py\<close>
  is none of the three, and with no other signal the step is not flagged. The location
  pattern itself asks for \<open>.py\<close> as written: \<open>/testbed/foo.PY\<close> passes the
  extension test of the source and, with no other signal, is not flagged either.
\<close>

theorem root_script_exclusion_counterexample:
  "locate_reproduction_code
     [action_step ''str_replace_editor create /testbed/Setup.py''] = Inr [] \<and>
   match_create ''str_replace_editor create /testbed/Setup.py'' = Some ''/testbed/Setup.py'' \<and>
   basename ''/testbed/Setup.py'' = ''Setup.py'' \<and>
   suffix ''.py'' ''Setup.py'' \<and>
   rmatch testbed_root_pattern (None, ''/testbed/Setup.py'') \<noteq> [] \<and>
   \<not> List.member excluded_names ''Setup.py'' \<and>
   locate_reproduction_code
     [action_step ''str_replace_editor create /testbed/foo.PY''] = Inr [] \<and>
   suffix ''.py'' (lower (basename ''/testbed/foo.PY''))"
  by code_simp

text \<open>
  Claim C4, amended. A creation of a file \<open>/testbed/name.py\<close>, where \<open>name\<close> is not
  empty and has no slash and the extension \<open>.py\<close> is in lower case, is flagged
  whatever its file name and the thought are, unless its lower-cased file name is
  \<open>__init__.py\<close>, \<open>setup.py\<close> or \<open>conftest.py\<close>; when the lower-cased file name
  is one of these three and the thought matches no pattern, the step is not flagged.
  With a thought that matches no pattern, the creations of \<open>/workspace/helper.py\<close> and
  of \<open>/workspace/setup.py\<close> are not flagged.
\<close>

theorem testbed_root_script_flagged:
  "(\<forall>traj i ws name rest r.
      i < length traj \<and>
      get_field (traj ! i) ''action'' =
        JStr (''str_replace_editor create'' @ ws @ ''/testbed/'' @ name @ ''.py'' @ rest) \<and>
      ws \<noteq> [] \<and> (\<forall>c \<in> set ws. is_space c) \<and>
      name \<noteq> [] \<and> (\<forall>c \<in> set name. \<not> is_space c \<and> c \<noteq> CHR ''/'') \<and>
      (rest = [] \<or> is_space (hd rest)) \<and>
      lower (name @ ''.py'') \<notin> set excluded_names \<and>
      locate_reproduction_code traj = Inr r
      \<longrightarrow> i \<in> set r) \<and>
   (\<forall>thought. \<not> list_ex (\<lambda>pattern. re_search pattern (lower thought)) thought_patterns \<longrightarrow>
      locate_reproduction_code [full_step ''str_replace_editor create /workspace/helper.py'' thought] = Inr [] \<and>
      locate_reproduction_code [full_step ''str_replace_editor create /workspace/setup.py'' thought] = Inr [] \<and>
      locate_reproduction_code [full_step ''str_replace_editor create /testbed/setup.py'' thought] = Inr [] \<and>
      locate_reproduction_code [full_step ''str_replace_editor create /testbed/__init__.py'' thought] = Inr [] \<and>
      locate_reproduction_code [full_step ''str_replace_editor create /testbed/conftest.py'' thought] = Inr []) \<and>
   (\<forall>traj i ws name rest r.
      i < length traj \<and>
      get_field (traj ! i) ''action'' =
        JStr (''str_replace_editor create'' @ ws @ ''/testbed/'' @ name @ ''.py'' @ rest) \<and>
      ws \<noteq> [] \<and> (\<forall>c \<in> set ws. is_space c) \<and>
      (\<forall>c \<in> set name. \<not> is_space c \<and> c \<noteq> CHR ''/'') \<and>
      (rest = [] \<or> is_space (hd rest)) \<and>
      lower (name @ ''.py'') \<in> set excluded_names \<and>
      \<not> list_ex (\<lambda>pattern. re_search pattern (lower (or_empty (get_field (traj ! i) ''thought''))))
           thought_patterns \<and>
      locate_reproduction_code traj = Inr r
      \<longrightarrow> i \<notin> set r)"
proof -
  have excluded: "i \<notin> set r"
    if h: "i < length traj \<and>
      get_field (traj ! i) ''action'' =
        JStr (''str_replace_editor create'' @ ws @ ''/testbed/'' @ name @ ''.py'' @ rest) \<and>
      ws \<noteq> [] \<and> (\<forall>c \<in> set ws. is_space c) \<and>
      (\<forall>c \<in> set name. \<not> is_space c \<and> c \<noteq> CHR ''/'') \<and>
      (rest = [] \<or> is_space (hd rest)) \<and>
      lower (name @ ''.py'') \<in> set excluded_names \<and>
      \<not> list_ex (\<lambda>pattern. re_search pattern (lower (or_empty (get_field (traj ! i) ''thought''))))
           thought_patterns \<and>
      locate_reproduction_code traj = Inr r"
    for traj i ws name rest r
  proof -
    from h have r: "locate_reproduction_code traj = Inr r" by blast
    from h have "is_reproduction (traj ! i) = Inr False"
      by (intro excluded_root_script_not_flagged [of "traj ! i" ws name rest]) blast+
    then show ?thesis
      unfolding locate_reproduction_code_Inr [OF r] by simp
  qed
  have general: "i \<in> set r"
    if h: "i < length traj \<and>
      get_field (traj ! i) ''action'' =
        JStr (''str_replace_editor create'' @ ws @ ''/testbed/'' @ name @ ''.py'' @ rest) \<and>
      ws \<noteq> [] \<and> (\<forall>c \<in> set ws. is_space c) \<and>
      name \<noteq> [] \<and> (\<forall>c \<in> set name. \<not> is_space c \<and> c \<noteq> CHR ''/'') \<and>
      (rest = [] \<or> is_space (hd rest)) \<and>
      lower (name @ ''.py'') \<notin> set excluded_names \<and>
      locate_reproduction_code traj = Inr r"
    for traj i ws name rest r
  proof -
    from h have i: "i < length traj" and r: "locate_reproduction_code traj = Inr r"
      by blast+
    from h have "is_reproduction (traj ! i) = Inr True"
      by (intro root_script_is_reproduction [of "traj ! i" ws name rest]) blast+
    with i show ?thesis
      unfolding locate_reproduction_code_Inr [OF r] by simp
  qed
  have e1: "locate_reproduction_code
      [full_step ''str_replace_editor create /workspace/helper.py'' thought] = Inr []"
    if "\<not> list_ex (\<lambda>pattern. re_search pattern (lower thought)) thought_patterns" for thought
  proof (rule plain_creation_not_flagged [OF _ _ _ _ that])
    show "contains ''str_replace_editor create'' ''str_replace_editor create /workspace/helper.py''"
      by code_simp
    show "match_create ''str_replace_editor create /workspace/helper.py'' = Some ''/workspace/helper.py''"
      by code_simp
    show "\<not> list_ex (\<lambda>keyword. contains keyword (lower (basename ''/workspace/helper.py''))) filename_keywords"
      by code_simp
    show "rmatch testbed_root_pattern (None, ''/workspace/helper.py'') = [] \<or>
        lower (basename ''/workspace/helper.py'') \<in> set excluded_names"
      by code_simp
  qed
  have e2: "locate_reproduction_code
      [full_step ''str_replace_editor create /workspace/setup.py'' thought] = Inr []"
    if "\<not> list_ex (\<lambda>pattern. re_search pattern (lower thought)) thought_patterns" for thought
  proof (rule plain_creation_not_flagged [OF _ _ _ _ that])
    show "contains ''str_replace_editor create'' ''str_replace_editor create /workspace/setup.py''"
      by code_simp
    show "match_create ''str_replace_editor create /workspace/setup.py'' = Some ''/workspace/setup.py''"
      by code_simp
    show "\<not> list_ex (\<lambda>keyword. contains keyword (lower (basename ''/workspace/setup.py''))) filename_keywords"
      by code_simp
    show "rmatch testbed_root_pattern (None, ''/workspace/setup.py'') = [] \<or>
        lower (basename ''/workspace/setup.py'') \<in> set excluded_names"
      by code_simp
  qed
  have e3: "locate_reproduction_code
      [full_step ''str_replace_editor create /testbed/setup.py'' thought] = Inr []"
    if "\<not> list_ex (\<lambda>pattern. re_search pattern (lower thought)) thought_patterns" for thought
  proof (rule plain_creation_not_flagged [OF _ _ _ _ that])
    show "contains ''str_replace_editor create'' ''str_replace_editor create /testbed/setup.py''"
      by code_simp
    show "match_create ''str_replace_editor create /testbed/setup.py'' = Some ''/testbed/setup.py''"
      by code_simp
    show "\<not> list_ex (\<lambda>keyword. contains keyword (lower (basename ''/testbed/setup.py''))) filename_keywords"
      by code_simp
    show "rmatch testbed_root_pattern (None, ''/testbed/setup.py'') = [] \<or>
        lower (basename ''/testbed/setup.py'') \<in> set excluded_names"
      by code_simp
  qed
  have e4: "locate_reproduction_code
      [full_step ''str_replace_editor create /testbed/__init__.py'' thought] = Inr []"
    if "\<not> list_ex (\<lambda>pattern. re_search pattern (lower thought)) thought_patterns" for thought
  proof (rule plain_creation_not_flagged [OF _ _ _ _ that])
    show "contains ''str_replace_editor create'' ''str_replace_editor create /testbed/__init__.py''"
      by code_simp
    show "match_create ''str_replace_editor create /testbed/__init__.py'' = Some ''/testbed/__init__.py''"
      by code_simp
    show "\<not> list_ex (\<lambda>keyword. contains keyword (lower (basename ''/testbed/__init__.py''))) filename_keywords"
      by code_simp
    show "rmatch testbed_root_pattern (None, ''/testbed/__init__.py'') = [] \<or>
        lower (basename ''/testbed/__init__.py'') \<in> set excluded_names"
      by code_simp
  qed
  have e5: "locate_reproduction_code
      [full_step ''str_replace_editor create /testbed/conftest.py'' thought] = Inr []"
    if "\<not> list_ex (\<lambda>pattern. re_search pattern (lower thought)) thought_patterns" for thought
  proof (rule plain_creation_not_flagged [OF _ _ _ _ that])
    show "contains ''str_replace_editor create'' ''str_replace_editor create /testbed/conftest.py''"
      by code_simp
    show "match_create ''str_replace_editor create /testbed/conftest.py'' = Some ''/testbed/conftest.py''"
      by code_simp
    show "\<not> list_ex (\<lambda>keyword. contains keyword (lower (basename ''/testbed/conftest.py''))) filename_keywords"
      by code_simp
    show "rmatch testbed_root_pattern (None, ''/testbed/conftest.py'') = [] \<or>
        lower (basename ''/testbed/conftest.py'') \<in> set excluded_names"
      by code_simp
  qed
  show ?thesis
  proof (intro conjI allI impI)
    fix traj i ws name rest r
    assume "i < length traj \<and>
      get_field (traj ! i) ''action'' =
        JStr (''str_replace_editor create'' @ ws @ ''/testbed/'' @ name @ ''.py'' @ rest) \<and>
      ws \<noteq> [] \<and> (\<forall>c \<in> set ws. is_space c) \<and>
      name \<noteq> [] \<and> (\<forall>c \<in> set name. \<not> is_space c \<and> c \<noteq> CHR ''/'') \<and>
      (rest = [] \<or> is_space (hd rest)) \<and>
      lower (name @ ''.py'') \<notin> set excluded_names \<and>
      locate_reproduction_code traj = Inr r"
    then show "i \<in> set r" by (rule general)
  next
    fix traj i ws name rest r
    assume "i < length traj \<and>
      get_field (traj ! i) ''action'' =
        JStr (''str_replace_editor create'' @ ws @ ''/testbed/'' @ name @ ''.py'' @ rest) \<and>
      ws \<noteq> [] \<and> (\<forall>c \<in> set ws. is_space c) \<and>
      (\<forall>c \<in> set name. \<not> is_space c \<and> c \<noteq> CHR ''/'') \<and>
      (rest = [] \<or> is_space (hd rest)) \<and>
      lower (name @ ''.py'') \<in> set excluded_names \<and>
      \<not> list_ex (\<lambda>pattern. re_search pattern (lower (or_empty (get_field (traj ! i) ''thought''))))
           thought_patterns \<and>
      locate_reproduction_code traj = Inr r"
    then show "i \<notin> set r" by (rule excluded)
  qed (rule e1 e2 e3 e4 e5, assumption)+
qed

text \<open>
  The creation of \<open>/testbed/foo.py\<close>, with an argument after the path: no keyword is
  in the file name and no pattern matches the thought. And the creation of
  \<open>/testbed/Setup.py\<close>, whose lower-cased name is excluded.
\<close>

theorem testbed_root_script_flagged_witness:
  "locate_reproduction_code
     [full_step ''str_replace_editor create /testbed/foo.py --file_text x'' ''Now the fix.''] = Inr [0] \<and>
   \<not> list_ex (\<lambda>keyword. contains keyword ''foo.py'') filename_keywords \<and>
   \<not> list_ex (\<lambda>pattern. re_search pattern (lower ''Now the fix.'')) thought_patterns \<and>
   locate_reproduction_code
     [full_step ''str_replace_editor create /workspace/helper.py'' ''Now the fix.''] = Inr [] \<and>
   lower ''Setup.py'' = ''setup.py'' \<and>
   locate_reproduction_code
     [action_step ''str_replace_editor create /testbed/Setup.py''] = Inr []"
proof -
  let ?S = "[action_step ''str_replace_editor create /testbed/Setup.py'']"
  have rs: "locate_reproduction_code ?S = Inr []" by code_simp
  have ls: "lower ''Setup.py'' = ''setup.py''" by code_simp
  have gs: "get_field (?S ! 0) ''action'' =
      JStr (''str_replace_editor create'' @ '' '' @ ''/testbed/'' @ ''Setup'' @ ''.py'' @ [])"
    by (simp add: get_field_def action_step_def)
  have ts: "\<not> list_ex (\<lambda>pattern. re_search pattern (lower (or_empty (get_field (?S ! 0) ''thought''))))
           thought_patterns"
    by code_simp
  have hs: "(\<forall>c \<in> set '' ''. is_space c) \<and> (\<forall>c \<in> set ''Setup''. \<not> is_space c \<and> c \<noteq> CHR ''/'')"
    by (simp add: is_space_def)
  have es: "lower (''Setup'' @ ''.py'') \<in> set excluded_names"
    using ls by (simp add: excluded_names_def)
  have "0 < length ?S \<and>
      get_field (?S ! 0) ''action'' =
        JStr (''str_replace_editor create'' @ '' '' @ ''/testbed/'' @ ''Setup'' @ ''.py'' @ []) \<and>
      '' '' \<noteq> [] \<and> (\<forall>c \<in> set '' ''. is_space c) \<and>
      (\<forall>c \<in> set ''Setup''. \<not> is_space c \<and> c \<noteq> CHR ''/'') \<and>
      (([]::string) = [] \<or> is_space (hd [])) \<and>
      lower (''Setup'' @ ''.py'') \<in> set excluded_names \<and>
      \<not> list_ex (\<lambda>pattern. re_search pattern (lower (or_empty (get_field (?S ! 0) ''thought''))))
           thought_patterns \<and>
      locate_reproduction_code ?S = Inr []"
    by (intro conjI gs ts es rs hs [THEN conjunct1] hs [THEN conjunct2]) simp_all
  then have excl: "0 \<notin> set ([]::nat list)"
    by (rule testbed_root_script_flagged [THEN conjunct2, THEN conjunct2, rule_format])
  let ?T = "[full_step ''str_replace_editor create /testbed/foo.py --file_text x'' ''Now the fix.'']"
  have k: "\<not> list_ex (\<lambda>keyword. contains keyword ''foo.py'') filename_keywords" by code_simp
  have t: "\<not> list_ex (\<lambda>pattern. re_search pattern (lower ''Now the fix.'')) thought_patterns"
    by code_simp
  have r: "locate_reproduction_code ?T = Inr [0]" by code_simp
  have g: "get_field (?T ! 0) ''action'' =
      JStr (''str_replace_editor create'' @ '' '' @ ''/testbed/'' @ ''foo'' @ ''.py'' @ '' --file_text x'')"
    by (simp add: get_field_full_step)
  have h: "(\<forall>c \<in> set '' ''. is_space c) \<and> (\<forall>c \<in> set ''foo''. \<not> is_space c \<and> c \<noteq> CHR ''/'')
      \<and> is_space (hd '' --file_text x'') \<and> lower (''foo'' @ ''.py'') \<notin> set excluded_names"
    by (simp add: is_space_def lower_def lower_char_def excluded_names_def)
  have "0 < length ?T \<and>
      get_field (?T ! 0) ''action'' =
        JStr (''str_replace_editor create'' @ '' '' @ ''/testbed/'' @ ''foo'' @ ''.py'' @ '' --file_text x'') \<and>
      '' '' \<noteq> [] \<and> (\<forall>c \<in> set '' ''. is_space c) \<and>
      ''foo'' \<noteq> [] \<and> (\<forall>c \<in> set ''foo''. \<not> is_space c \<and> c \<noteq> CHR ''/'') \<and>
      ('' --file_text x'' = [] \<or> is_space (hd '' --file_text x'')) \<and>
      lower (''foo'' @ ''.py'') \<notin> set excluded_names \<and>
      locate_reproduction_code ?T = Inr [0]"
    using g h r by simp
  then have "0 \<in> set [0::nat]"
    by (rule testbed_root_script_flagged [THEN conjunct1, rule_format])
  moreover have "locate_reproduction_code
     [full_step ''str_replace_editor create /workspace/helper.py'' ''Now the fix.''] = Inr []"
    using t
    by (rule testbed_root_script_flagged [THEN conjunct2, THEN conjunct1, rule_format, THEN conjunct1])
  ultimately show ?thesis using k t r rs ls excl by simp
qed

section \<open>Results: absent fields\<close>

text \<open>
  Claim C8. A step whose \<open>action\<close> or \<open>thought\<close> key is absent is treated by each
  of the three functions as a step with the empty text for that key: the results on a
  trajectory, and on the trajectory with every absent field filled in as the empty text,
  are the same. No error comes from an absent field: a step without an action is not
  flagged by \<open>locate_reproduction_code\<close>, which returns whenever every action is
  absent or a text (the other two functions have no failing operation).
\<close>

theorem absent_fields_are_empty_text:
  "locate_reproduction_code (map with_defaults traj) = locate_reproduction_code traj \<and>
   locate_search (map with_defaults traj) = locate_search traj \<and>
   locate_tool_use (map with_defaults traj) = locate_tool_use traj \<and>
   (\<forall>step. step ''action'' = None \<longrightarrow> is_reproduction step = Inr False) \<and>
   ((\<forall>step \<in> set traj. step ''action'' \<noteq> Some JNull) \<longrightarrow>
      (\<exists>r. locate_reproduction_code traj = Inr r))"
proof -
  have "\<exists>r. locate_reproduction_code traj = Inr r"
    if h: "\<forall>step \<in> set traj. step ''action'' \<noteq> Some JNull"
  proof -
    have "\<forall>step \<in> set traj. get_field step ''action'' \<noteq> JNull"
    proof
      fix step assume "step \<in> set traj"
      with h have "step ''action'' \<noteq> Some JNull" by blast
      then show "get_field step ''action'' \<noteq> JNull"
        by (cases "step ''action''") (simp_all add: get_field_def)
    qed
    then show ?thesis
      unfolding locate_reproduction_code_def by (rule reproduction_loop_returns)
  qed
  then show ?thesis
    by (simp add: locate_reproduction_code_def locate_search_def locate_tool_use_def
        reproduction_loop_with_defaults search_loop_with_defaults tool_loop_with_defaults
        absent_action_not_flagged)
qed

text \<open>
  A trajectory of an empty object, an object with a thought only, an object with an
  action only, and a creation without a thought.
\<close>

theorem absent_fields_are_empty_text_witness:
  "locate_reproduction_code
     [Map.empty, [''thought'' \<mapsto> JStr ''reproduce the issue''], action_step ''ls -la'',
      action_step ''str_replace_editor create /testbed/repro.py''] = Inr [3] \<and>
   locate_reproduction_code (map with_defaults
     [Map.empty, [''thought'' \<mapsto> JStr ''reproduce the issue''], action_step ''ls -la'',
      action_step ''str_replace_editor create /testbed/repro.py'']) = Inr [3] \<and>
   locate_search (map with_defaults
     [Map.empty, [''thought'' \<mapsto> JStr ''reproduce the issue''], action_step ''ls -la'',
      action_step ''str_replace_editor create /testbed/repro.py'']) = [2] \<and>
   locate_tool_use (map with_defaults
     [Map.empty, [''thought'' \<mapsto> JStr ''reproduce the issue''], action_step ''ls -la'',
      action_step ''str_replace_editor create /testbed/repro.py''])
     = [(''ls'', 1), (''str_replace_editor_create'', 1)] \<and>
   is_reproduction Map.empty = Inr False"
proof -
  let ?T = "[Map.empty, [''thought'' \<mapsto> JStr ''reproduce the issue''], action_step ''ls -la'',
      action_step ''str_replace_editor create /testbed/repro.py'']"
  have r: "locate_reproduction_code ?T = Inr [3]" by code_simp
  have s: "locate_search ?T = [2]" by code_simp
  have t: "locate_tool_use ?T = [(''ls'', 1), (''str_replace_editor_create'', 1)]" by code_simp
  have e: "(Map.empty :: step) ''action'' = None" by simp
  from absent_fields_are_empty_text [of ?T] r s t e show ?thesis by simp
qed

section \<open>Results: \<open>locate_tool_use\<close>\<close>

text \<open>
  Claim C6. The action \<open>cd /workspace && python script.py\<close> gives the counts
  \<open>cd: 1, python: 1\<close>, and a trajectory with this action twice gives
  \<open>cd: 2, python: 2\<close>. Each part of an \<open>&&\<close> chain is resolved on its own: the chain
  adds to the count of every name the sum of what its parts add. The count of every name
  over two trajectories, one after the other, is the sum of its counts over each.
\<close>

theorem tool_counts_additive:
  "locate_tool_use [action_step ''cd /workspace && python script.py'']
     = [(''cd'', 1), (''python'', 1)] \<and>
   locate_tool_use [action_step ''cd /workspace && python script.py'',
                    action_step ''cd /workspace && python script.py'']
     = [(''cd'', 2), (''python'', 2)] \<and>
   (\<forall>d parts k. count_of (count_parts d parts) k =
      count_of d k + (\<Sum>part \<leftarrow> parts. count_of (count_command [] (strip part)) k)) \<and>
   (\<forall>xs ys k. count_of (locate_tool_use (xs @ ys)) k =
      count_of (locate_tool_use xs) k + count_of (locate_tool_use ys) k)"
proof -
  have one: "locate_tool_use [action_step ''cd /workspace && python script.py'']
     = [(''cd'', 1), (''python'', 1)]"
    by code_simp
  have two: "locate_tool_use [action_step ''cd /workspace && python script.py'',
                    action_step ''cd /workspace && python script.py'']
     = [(''cd'', 2), (''python'', 2)]"
    by code_simp
  have "count_of (locate_tool_use (xs @ ys)) k =
      count_of (locate_tool_use xs) k + count_of (locate_tool_use ys) k" for xs ys k
    unfolding locate_tool_use_def tool_loop_append
    by (rule count_of_tool_loop)
  with one two count_of_count_parts show ?thesis by simp
qed

text \<open>The sum at a trajectory of three steps, split after the first.\<close>

theorem tool_counts_additive_witness:
  "count_of (locate_tool_use ([action_step ''cd /workspace && python script.py''] @
      [action_step ''python -m pytest'', action_step ''git status''])) ''python'' = 2 \<and>
   count_of (locate_tool_use [action_step ''cd /workspace && python script.py'']) ''python'' = 1 \<and>
   count_of (locate_tool_use [action_step ''python -m pytest'', action_step ''git status''])
      ''python'' = 1"
proof -
  let ?xs = "[action_step ''cd /workspace && python script.py'']"
  let ?ys = "[action_step ''python -m pytest'', action_step ''git status'']"
  have x: "count_of (locate_tool_use ?xs) ''python'' = 1" by code_simp
  have y: "count_of (locate_tool_use ?ys) ''python'' = 1" by code_simp
  from tool_counts_additive have "count_of (locate_tool_use (?xs @ ?ys)) ''python'' =
      count_of (locate_tool_use ?xs) ''python'' + count_of (locate_tool_use ?ys) ''python''"
    by blast
  with x y show ?thesis by simp
qed




text \<open>
  Claim C7, as stated, fails. An action that starts with \<open>str_replace_editor\<close> is
  searched as a whole for the operation patterns, so an operation named after a pipe is
  counted, where the text before the pipe alone gives no count. And the pipe separator is
  looked for in the stripped action: in \<open> | grep x\<close> the text before the pipe is
  empty, and the key \<open>|\<close> is counted.
\<close>

theorem first_pipe_stage_counterexample:
  "contains '' | '' ''str_replace_editor x | str_replace_editor view y'' \<and>
   \<not> contains '' && '' ''str_replace_editor x | str_replace_editor view y'' \<and>
   locate_tool_use [action_step ''str_replace_editor x | str_replace_editor view y'']
     = [(''str_replace_editor_view'', 1)] \<and>
   locate_tool_use [action_step ''str_replace_editor x''] = [] \<and>
   contains '' | '' '' | grep x'' \<and>
   hd (split '' | '' '' | grep x'') = [] \<and>
   locate_tool_use [action_step '' | grep x''] = [(''|'', 1)]"
  by code_simp

text \<open>
  Claim C7, amended. For an action that does not start with \<open>str_replace_editor\<close> and
  whose stripped text contains the separator \<open> | \<close> and not the separator
  \<open> && \<close>, the counter resolves the stripped text before the first \<open> | \<close>, as it
  resolves a single command, and nothing else: whatever follows the pipe has no part in
  the counts.
\<close>

theorem first_pipe_stage_only:
  assumes "\<not> prefix ''str_replace_editor'' action"
    and "contains '' | '' (strip action)"
    and "\<not> contains '' && '' (strip action)"
  shows "\<exists>first later.
           strip action = first @ '' | '' @ later \<and> \<not> contains '' | '' first \<and>
           (\<forall>d. count_action d action = count_command d (strip first)) \<and>
           ((\<forall>d. count_action d action = d) \<or> (\<exists>k. \<forall>d. count_action d action = bump d k))"
proof -
  let ?first = "hd (split '' | '' (strip action))"
  from split_hd [OF _ assms(2)] obtain later where
    s: "strip action = ?first @ '' | '' @ later" "\<not> contains '' | '' ?first" by auto
  have c: "\<forall>d. count_action d action = count_command d (strip ?first)"
    using count_action_piped [OF assms(1,3,2)] by simp
  with count_command_cases [of "strip ?first"]
  have "(\<forall>d. count_action d action = d) \<or> (\<exists>k. \<forall>d. count_action d action = bump d k)"
    by simp
  with s c show ?thesis by blast
qed

text \<open>The action \<open>cat setup.py | grep version\<close>: only \<open>cat\<close> is counted.\<close>

theorem first_pipe_stage_only_witness:
  "strip ''cat setup.py | grep version'' = ''cat setup.py'' @ '' | '' @ ''grep version'' \<and>
   (\<exists>first later. ''cat setup.py | grep version'' = first @ '' | '' @ later \<and>
      \<not> contains '' | '' first \<and>
      count_action [] ''cat setup.py | grep version'' = count_command [] (strip first)) \<and>
   count_action [] ''cat setup.py | grep version'' = [(''cat'', 1)]"
proof -
  let ?a = "''cat setup.py | grep version''"
  have h: "\<not> prefix ''str_replace_editor'' ?a" "contains '' | '' (strip ?a)"
    "\<not> contains '' && '' (strip ?a)" by code_simp+
  have st: "strip ?a = ?a" by code_simp
  have c: "count_action [] ?a = [(''cat'', 1)]" by code_simp
  from first_pipe_stage_only [OF h] obtain first later where
    "strip ?a = first @ '' | '' @ later" "\<not> contains '' | '' first"
    "\<forall>d. count_action d ?a = count_command d (strip first)" by blast
  then have "?a = first @ '' | '' @ later \<and> \<not> contains '' | '' first \<and>
      count_action [] ?a = count_command [] (strip first)"
    unfolding st by simp
  then have "\<exists>first later. ?a = first @ '' | '' @ later \<and> \<not> contains '' | '' first \<and>
      count_action [] ?a = count_command [] (strip first)" by blast
  moreover have "strip ?a = ''cat setup.py'' @ '' | '' @ ''grep version''"
    unfolding st by simp
  ultimately show ?thesis using c by blast
qed

section \<open>Results: the shell patterns of \<open>locate_search\<close>\<close>




end
